theory Spec2Isabelle
  imports Main
begin

section \<open>Local-Flix: filename parsing, metadata cache, library scan, season grouping\<close>

text \<open>
  A shallow embedding of the non-GUI core of \<^verbatim>\<open>4.1.py\<close>: the filename parsers
  (\<^verbatim>\<open>parse_filename\<close>, \<^verbatim>\<open>parse_episode_number\<close>, \<^verbatim>\<open>clean_filename\<close>), the
  metadata cache (\<^verbatim>\<open>get_cached_metadata\<close>, \<^verbatim>\<open>save_metadata\<close>), the season grouper
  (\<^verbatim>\<open>parse_series_folder\<close>), the video listings and the scanning loop of
  \<^verbatim>\<open>LibraryWindow.refresh_list\<close>, and the cache use of \<^verbatim>\<open>SeriesItem\<close>.

  Conventions of the model.
  \<^item> A Python \<^verbatim>\<open>str\<close> is a \<^typ>\<open>string\<close>; a \<^typ>\<open>char\<close> stands for the Unicode code
    point of the same number, so the model covers strings whose code points are below
    256. The character classes below are Python's on that range.
  \<^item> Paths follow \<^verbatim>\<open>posixpath\<close>; the operating system is Linux, with names of at most
    255 bytes and paths of fewer than 4096; the program may read every file and write
    into every directory.
  \<^item> The interpreter is CPython 3.11 with its defaults: converting between an integer
    and its decimal form raises \<^verbatim>\<open>ValueError\<close> beyond 4300 digits.
  \<^item> A raised exception is the \<open>Inl\<close> branch of a sum.
  \<^item> The threads that the item constructors start are not followed.
\<close>

subsection \<open>Characters and strings\<close>

definition is_space :: "char \<Rightarrow> bool" where
  \<comment> \<open>\<^verbatim>\<open>str.isspace\<close>, the class \<^verbatim>\<open>\s\<close> of \<^verbatim>\<open>re\<close>, and what \<^verbatim>\<open>str.strip()\<close> removes\<close>
  "is_space c = (\<lambda>n::nat. (9 \<le> n \<and> n \<le> 13) \<or> (28 \<le> n \<and> n \<le> 32) \<or> n = 133 \<or> n = 160)
                 (of_char c)"

definition is_digit :: "char \<Rightarrow> bool" where
  \<comment> \<open>the class \<^verbatim>\<open>\d\<close>: the decimal digits\<close>
  "is_digit c = (\<lambda>n::nat. 48 \<le> n \<and> n \<le> 57) (of_char c)"

definition is_alnum :: "char \<Rightarrow> bool" where
  \<comment> \<open>\<^verbatim>\<open>str.isalnum\<close>\<close>
  "is_alnum c = (\<lambda>n::nat.
       (48 \<le> n \<and> n \<le> 57) \<or> (65 \<le> n \<and> n \<le> 90) \<or> (97 \<le> n \<and> n \<le> 122) \<or>
       n = 170 \<or> n = 178 \<or> n = 179 \<or> n = 181 \<or> n = 185 \<or> n = 186 \<or>
       (188 \<le> n \<and> n \<le> 190) \<or> (192 \<le> n \<and> n \<le> 214) \<or>
       (216 \<le> n \<and> n \<le> 246) \<or> (248 \<le> n \<and> n \<le> 255)) (of_char c)"

definition is_word :: "char \<Rightarrow> bool" where
  \<comment> \<open>the class \<^verbatim>\<open>\w\<close>: alphanumeric or underscore\<close>
  "is_word c = (is_alnum c \<or> c = CHR ''_'')"

definition lower :: "char \<Rightarrow> char" where
  \<comment> \<open>\<^verbatim>\<open>str.lower\<close> on one character\<close>
  "lower c = (\<lambda>n::nat.
       if (65 \<le> n \<and> n \<le> 90) \<or> (192 \<le> n \<and> n \<le> 214) \<or> (216 \<le> n \<and> n \<le> 222)
       then char_of (n + 32) else c) (of_char c)"

definition strip :: "string \<Rightarrow> string" where
  \<comment> \<open>\<^verbatim>\<open>s.strip()\<close>\<close>
  "strip s = rev (dropWhile is_space (rev (dropWhile is_space s)))"

definition replace_char :: "char \<Rightarrow> char \<Rightarrow> string \<Rightarrow> string" where
  \<comment> \<open>\<^verbatim>\<open>s.replace(a, b)\<close> for one-character \<^verbatim>\<open>a\<close> and \<^verbatim>\<open>b\<close>\<close>
  "replace_char a b s = map (\<lambda>c. if c = a then b else c) s"

definition endswith :: "string \<Rightarrow> string \<Rightarrow> bool" where
  "endswith s suf = (length suf \<le> length s \<and> drop (length s - length suf) s = suf)"

definition endswith_any :: "string \<Rightarrow> string list \<Rightarrow> bool" where
  \<comment> \<open>\<^verbatim>\<open>s.endswith(tuple)\<close>\<close>
  "endswith_any s sufs = list_ex (endswith s) sufs"

definition rfind :: "char \<Rightarrow> string \<Rightarrow> int" where
  \<comment> \<open>\<^verbatim>\<open>s.rfind(c)\<close>: the last index of \<^verbatim>\<open>c\<close>, or -1\<close>
  "rfind c s = (if c \<in> set s
                then int (length s) - 1 - int (length (takeWhile (\<lambda>x. x \<noteq> c) (rev s)))
                else - 1)"

definition splitext :: "string \<Rightarrow> string \<times> string" where
  \<comment> \<open>\<^verbatim>\<open>os.path.splitext\<close>: the extension starts at the last dot of the last component,
      unless only dots precede it there\<close>
  "splitext p =
     (let sepIndex = rfind (CHR ''/'') p;
          dotIndex = rfind (CHR ''.'') p
      in if dotIndex > sepIndex \<and>
            list_ex (\<lambda>x. x \<noteq> CHR ''.'')
              (take (nat (dotIndex - (sepIndex + 1))) (drop (nat (sepIndex + 1)) p))
         then (take (nat dotIndex) p, drop (nat dotIndex) p)
         else (p, []))"

definition basename :: "string \<Rightarrow> string" where
  "basename p = drop (nat (rfind (CHR ''/'') p + 1)) p"

definition dirname :: "string \<Rightarrow> string" where
  "dirname p =
     (let head = take (nat (rfind (CHR ''/'') p + 1)) p
      in if head \<noteq> [] \<and> list_ex (\<lambda>x. x \<noteq> CHR ''/'') head
         then rev (dropWhile (\<lambda>x. x = CHR ''/'') (rev head)) else head)"

definition join :: "string \<Rightarrow> string \<Rightarrow> string" where
  \<comment> \<open>\<^verbatim>\<open>os.path.join(a, b)\<close>\<close>
  "join a b =
     (if b \<noteq> [] \<and> hd b = CHR ''/'' then b
      else if a = [] \<or> last a = CHR ''/'' then a @ b
      else a @ ''/'' @ b)"

subsection \<open>Errors, \<^verbatim>\<open>int()\<close> and \<^verbatim>\<open>str()\<close>\<close>

text \<open>
  \<open>OSError\<close> stands for the \<^verbatim>\<open>OSError\<close> that is none of the subclasses listed with it:
  the one the system raises for a name that is too long.
\<close>

datatype error =
    ValueError | TypeError | AttributeError | RecursionError
  | FileNotFoundError | IsADirectoryError | NotADirectoryError | OSError

definition int_max_str_digits :: int where
  \<comment> \<open>\<^verbatim>\<open>sys.get_int_max_str_digits()\<close>\<close>
  "int_max_str_digits = 4300"

definition is_int_space :: "char \<Rightarrow> bool" where
  \<comment> \<open>the whitespace that \<^verbatim>\<open>int()\<close> skips around a literal: the whitespace of C below
      127, the Unicode whitespace from 127 on\<close>
  "is_int_space c = (\<lambda>n::nat. (9 \<le> n \<and> n \<le> 13) \<or> n = 32 \<or> n = 133 \<or> n = 160) (of_char c)"

definition digits_val :: "string \<Rightarrow> nat" where
  "digits_val ds = foldl (\<lambda>a c. 10 * a + (of_char c - 48)) 0 ds"

definition int_literal_ok :: "string \<Rightarrow> bool" where
  \<comment> \<open>digits, with single underscores allowed between them\<close>
  "int_literal_ok b =
     (b \<noteq> [] \<and> is_digit (hd b) \<and> is_digit (last b) \<and>
      list_all (\<lambda>c. is_digit c \<or> c = CHR ''_'') b \<and>
      \<not> list_ex (\<lambda>(x, y). x = CHR ''_'' \<and> y = CHR ''_'') (zip b (tl b)))"

definition py_int_str :: "string \<Rightarrow> error + int" where
  \<comment> \<open>\<^verbatim>\<open>int(s)\<close> for a string, base 10\<close>
  "py_int_str s =
     (let t = rev (dropWhile is_int_space (rev (dropWhile is_int_space s)));
          neg = (t \<noteq> [] \<and> hd t = CHR ''-'');
          b = (if t \<noteq> [] \<and> (hd t = CHR ''-'' \<or> hd t = CHR ''+'') then tl t else t)
      in if int_literal_ok b \<and> int (length (filter is_digit b)) \<le> int_max_str_digits
         then Inr ((if neg then - 1 else 1) * int (digits_val (filter is_digit b)))
         else Inl ValueError)"

fun show_nat :: "nat \<Rightarrow> string" where
  "show_nat n =
     (if n < 10 then [''0123456789'' ! n]
      else show_nat (n div 10) @ [''0123456789'' ! (n mod 10)])"

definition show_int :: "int \<Rightarrow> string" where
  \<comment> \<open>the decimal form of an integer\<close>
  "show_int i = (if i < 0 then CHR ''-'' # show_nat (nat (- i)) else show_nat (nat i))"

definition int_str_ok :: "int \<Rightarrow> bool" where
  \<comment> \<open>the decimal form has at most \<open>int_max_str_digits\<close> digits, so that \<^verbatim>\<open>str(i)\<close>,
      \<^verbatim>\<open>repr(i)\<close> and \<^verbatim>\<open>json.dump\<close> can produce it\<close>
  "int_str_ok i = (int (length (show_nat (nat \<bar>i\<bar>))) \<le> int_max_str_digits)"

subsection \<open>Regular expressions\<close>

text \<open>
  The fragment of \<^verbatim>\<open>re\<close> that the program's patterns use: character classes, greedy
  repetition of a class, sequence, ordered alternative, the word boundary \<^verbatim>\<open>\b\<close> and
  capturing groups. A configuration is the character before the current position
  (for \<^verbatim>\<open>\b\<close>), the text from the position on, and the groups captured so far.
  \<open>rmatch\<close> lists the configurations in which a match of the expression can end, in the
  order in which the backtracking matcher of \<^verbatim>\<open>re\<close> tries them; the matcher answers
  with the first.
\<close>

datatype regex =
    Eps
  | Cls "char \<Rightarrow> bool"
  | Rep "char \<Rightarrow> bool" nat "nat option"
  | Seq regex regex
  | Alt regex regex
  | Bnd
  | Grp nat regex

type_synonym groups = "(nat \<times> string) list"
type_synonym conf = "char option \<times> string \<times> groups"

definition word_at :: "char option \<Rightarrow> bool" where
  "word_at x = (case x of None \<Rightarrow> False | Some c \<Rightarrow> is_word c)"

definition peek :: "string \<Rightarrow> char option" where
  "peek s = (case s of [] \<Rightarrow> None | c # _ \<Rightarrow> Some c)"

fun rmatch :: "regex \<Rightarrow> conf \<Rightarrow> conf list" where
  "rmatch Eps st = [st]"
| "rmatch (Cls p) (prev, s, g) =
     (case s of [] \<Rightarrow> [] | c # cs \<Rightarrow> if p c then [(Some c, cs, g)] else [])"
| "rmatch (Rep p lo hi) (prev, s, g) =
     (let k = length (takeWhile p s);
          n = (case hi of None \<Rightarrow> k | Some h \<Rightarrow> min h k)
      in map (\<lambda>j. (if j = 0 then prev else Some (s ! (j - 1)), drop j s, g))
           (rev [lo..<Suc n]))"
| "rmatch (Seq a b) st = concat (map (rmatch b) (rmatch a st))"
| "rmatch (Alt a b) st = rmatch a st @ rmatch b st"
| "rmatch Bnd (prev, s, g) =
     (if word_at prev \<noteq> word_at (peek s) then [(prev, s, g)] else [])"
| "rmatch (Grp n r) (prev, s, g) =
     map (\<lambda>(p', s', g'). (p', s', (n, take (length s - length s') s) # g'))
       (rmatch r (prev, s, g))"

fun lits :: "string \<Rightarrow> regex" where
  \<comment> \<open>a literal string\<close>
  "lits [] = Eps"
| "lits (x # xs) = Seq (Cls (\<lambda>c. c = x)) (lits xs)"

fun lits_ci :: "string \<Rightarrow> regex" where
  \<comment> \<open>a literal string under \<^verbatim>\<open>re.IGNORECASE\<close>\<close>
  "lits_ci [] = Eps"
| "lits_ci (x # xs) = Seq (Cls (\<lambda>c. lower c = lower x)) (lits_ci xs)"

definition group :: "groups \<Rightarrow> nat \<Rightarrow> string" where
  \<comment> \<open>\<^verbatim>\<open>m.group(n)\<close>; every group of the patterns below takes part in every match\<close>
  "group g n = (case map_of g n of Some t \<Rightarrow> t | None \<Rightarrow> [])"

definition re_match :: "regex \<Rightarrow> string \<Rightarrow> groups option" where
  \<comment> \<open>\<^verbatim>\<open>re.match(r, s)\<close>: a match starting at index 0\<close>
  "re_match r s = (case rmatch r (None, s, []) of [] \<Rightarrow> None | (_, _, g) # _ \<Rightarrow> Some g)"

fun re_search_from :: "regex \<Rightarrow> char option \<Rightarrow> string \<Rightarrow> groups option" where
  "re_search_from r prev [] =
     (case rmatch r (prev, [], []) of [] \<Rightarrow> None | (_, _, g) # _ \<Rightarrow> Some g)"
| "re_search_from r prev (c # cs) =
     (case rmatch r (prev, c # cs, []) of
        [] \<Rightarrow> re_search_from r (Some c) cs
      | (_, _, g) # _ \<Rightarrow> Some g)"

definition re_search :: "regex \<Rightarrow> string \<Rightarrow> groups option" where
  \<comment> \<open>\<^verbatim>\<open>re.search(r, s)\<close>: the leftmost match\<close>
  "re_search r s = re_search_from r None s"

function re_sub_from :: "regex \<Rightarrow> string \<Rightarrow> bool \<Rightarrow> char option \<Rightarrow> string \<Rightarrow> string" where
  "re_sub_from r repl adv prev s =
     (case filter (\<lambda>(_, s', _). \<not> adv \<or> length s' < length s) (rmatch r (prev, s, [])) of
        [] \<Rightarrow> (case s of [] \<Rightarrow> [] | c # cs \<Rightarrow> c # re_sub_from r repl False (Some c) cs)
      | (_, s', _) # _ \<Rightarrow>
          (let k = length s - length s'
           in if k = 0 then
                (if adv then
                   (case s of [] \<Rightarrow> [] | c # cs \<Rightarrow> c # re_sub_from r repl False (Some c) cs)
                 else repl @ re_sub_from r repl True prev s)
              else repl @ re_sub_from r repl False (Some (s ! (k - 1))) (drop k s)))"
  by pat_completeness auto
termination
  by (relation "measure (\<lambda>(r, repl, adv, prev, s). 2 * length s + (if adv then 0 else 1))")
     auto

declare re_sub_from.simps [simp del]

definition re_sub :: "regex \<Rightarrow> string \<Rightarrow> string \<Rightarrow> string" where
  \<comment> \<open>\<^verbatim>\<open>re.sub(r, repl, s)\<close> for a replacement without group references: the matches are
      found left to right, each search starting where the previous match ended; after
      an empty match the next one may not be empty at the same place\<close>
  "re_sub r repl s = re_sub_from r repl False None s"

subsection \<open>Filename Parser\<close>

definition re_episode :: regex where
  \<comment> \<open>\<^verbatim>\<open>[Ss](\d{1,2})[Ee](\d{1,2})\s*-\s*(.*)\<close>\<close>
  "re_episode =
     Seq (Cls (\<lambda>c. c = CHR ''S'' \<or> c = CHR ''s''))
    (Seq (Grp 1 (Rep is_digit 1 (Some 2)))
    (Seq (Cls (\<lambda>c. c = CHR ''E'' \<or> c = CHR ''e''))
    (Seq (Grp 2 (Rep is_digit 1 (Some 2)))
    (Seq (Rep is_space 0 None)
    (Seq (Cls (\<lambda>c. c = CHR ''-''))
    (Seq (Rep is_space 0 None)
         (Grp 3 (Rep (\<lambda>c. c \<noteq> CHR 0x0A) 0 None))))))))"

definition parse_filename :: "string \<Rightarrow> error + (int \<times> int \<times> string)" where
  "parse_filename filename =
     (let name = fst (splitext filename)
      in case re_match re_episode name of
           Some m \<Rightarrow>
             (case py_int_str (group m 1) of
                Inl e \<Rightarrow> Inl e
              | Inr season \<Rightarrow>
                  (case py_int_str (group m 2) of
                     Inl e \<Rightarrow> Inl e
                   | Inr episode \<Rightarrow> Inr (season, episode, strip (group m 3))))
         | None \<Rightarrow> Inr (1, 0, name))"

definition re_episode_number :: regex where
  \<comment> \<open>\<^verbatim>\<open>[Ss]\d{1,2}[Ee](\d{1,2})\<close>\<close>
  "re_episode_number =
     Seq (Cls (\<lambda>c. c = CHR ''S'' \<or> c = CHR ''s''))
    (Seq (Rep is_digit 1 (Some 2))
    (Seq (Cls (\<lambda>c. c = CHR ''E'' \<or> c = CHR ''e''))
         (Grp 1 (Rep is_digit 1 (Some 2)))))"

definition parse_episode_number :: "string \<Rightarrow> error + int" where
  "parse_episode_number name =
     (case re_search re_episode_number name of
        Some m \<Rightarrow> py_int_str (group m 1)
      | None \<Rightarrow> Inr 0)"

definition re_year :: regex where
  \<comment> \<open>\<^verbatim>\<open>\b(19|20)\d{2}\b\<close>\<close>
  "re_year =
     Seq Bnd
    (Seq (Grp 1 (Alt (lits ''19'') (lits ''20'')))
    (Seq (Rep is_digit 2 (Some 2)) Bnd))"

definition re_tags :: regex where
  \<comment> \<open>\<^verbatim>\<open>\b(720p|1080p|2160p|480p|HDR|BluRay|WEBRip|x264|H\.?264)\b\<close> with
      \<^verbatim>\<open>re.IGNORECASE\<close>\<close>
  "re_tags =
     Seq Bnd
    (Seq (Grp 1
       (Alt (lits_ci ''720p'')
       (Alt (lits_ci ''1080p'')
       (Alt (lits_ci ''2160p'')
       (Alt (lits_ci ''480p'')
       (Alt (lits_ci ''HDR'')
       (Alt (lits_ci ''BluRay'')
       (Alt (lits_ci ''WEBRip'')
       (Alt (lits_ci ''x264'')
            (Seq (lits_ci ''H'')
            (Seq (Rep (\<lambda>c. lower c = lower (CHR ''.'')) 0 (Some 1))
                 (lits_ci ''264'')))))))))))) Bnd)"

definition re_spaces :: regex where
  \<comment> \<open>\<^verbatim>\<open>\s+\<close>\<close>
  "re_spaces = Rep is_space 1 None"

definition clean_filename :: "string \<Rightarrow> string" where
  "clean_filename filename =
     (let name = replace_char (CHR ''_'') (CHR '' '')
                   (replace_char (CHR ''.'') (CHR '' '') (fst (splitext filename)));
          name = re_sub re_year [] name;
          name = re_sub re_tags [] name
      in strip (re_sub re_spaces '' '' name))"

text \<open>
  The claim about \<^verbatim>\<open>parse_filename\<close>, in the specification's words: the stem is
  \<^verbatim>\<open>S\<close> or \<^verbatim>\<open>s\<close>, one or two digits, \<^verbatim>\<open>E\<close> or \<^verbatim>\<open>e\<close>, one or two digits, optional
  whitespace, a hyphen, and the rest (optional whitespace and the remainder).
\<close>

definition episode_stem :: "string \<Rightarrow> string \<Rightarrow> string \<Rightarrow> string \<Rightarrow> bool" where
  "episode_stem stem d1 d2 rest =
     (\<exists>c1 c2 w.
        stem = c1 # d1 @ c2 # d2 @ w @ CHR ''-'' # rest \<and>
        (c1 = CHR ''S'' \<or> c1 = CHR ''s'') \<and> (c2 = CHR ''E'' \<or> c2 = CHR ''e'') \<and>
        d1 \<noteq> [] \<and> length d1 \<le> 2 \<and> list_all is_digit d1 \<and>
        d2 \<noteq> [] \<and> length d2 \<le> 2 \<and> list_all is_digit d2 \<and>
        list_all is_space w)"

text \<open>The same pattern read deterministically from left to right (used in the proofs).\<close>

definition episode_fields :: "string \<Rightarrow> (string \<times> string \<times> string) option" where
  "episode_fields s =
     (case s of
        [] \<Rightarrow> None
      | c # cs \<Rightarrow>
          if (c = CHR ''S'' \<or> c = CHR ''s'') \<and>
             takeWhile is_digit cs \<noteq> [] \<and> length (takeWhile is_digit cs) \<le> 2
          then (case dropWhile is_digit cs of
                  [] \<Rightarrow> None
                | e # es \<Rightarrow>
                    if (e = CHR ''E'' \<or> e = CHR ''e'') \<and>
                       takeWhile is_digit es \<noteq> [] \<and> length (takeWhile is_digit es) \<le> 2
                    then (case dropWhile is_space (dropWhile is_digit es) of
                            [] \<Rightarrow> None
                          | h # r \<Rightarrow>
                              if h = CHR ''-''
                              then Some (takeWhile is_digit cs, takeWhile is_digit es,
                                         takeWhile (\<lambda>c. c \<noteq> CHR 0x0A) (dropWhile is_space r))
                              else None)
                    else None)
          else None)"

subsection \<open>Python values and the file system\<close>

text \<open>
  Python values of the kinds JSON has (floats left out); \<open>JNull\<close> is \<^verbatim>\<open>None\<close>. The keys
  of a \<open>JObj\<close> are distinct.
\<close>

datatype json =
    JNull | JBool bool | JInt int | JStr string
  | JArr "json list" | JObj "(string \<times> json) list"

definition dict_get :: "(string \<times> json) list \<Rightarrow> string \<Rightarrow> json \<Rightarrow> json" where
  \<comment> \<open>\<^verbatim>\<open>d.get(k, default)\<close>\<close>
  "dict_get d k dflt = (case map_of d k of Some v \<Rightarrow> v | None \<Rightarrow> dflt)"

definition truthy :: "json \<Rightarrow> bool" where
  "truthy v = (case v of JNull \<Rightarrow> False | JBool b \<Rightarrow> b | JInt i \<Rightarrow> i \<noteq> 0
               | JStr s \<Rightarrow> s \<noteq> [] | JArr xs \<Rightarrow> xs \<noteq> [] | JObj kv \<Rightarrow> kv \<noteq> [])"

definition hex2 :: "nat \<Rightarrow> string" where
  "hex2 n = [''0123456789abcdef'' ! (n div 16 mod 16), ''0123456789abcdef'' ! (n mod 16)]"

definition repr_char :: "char \<Rightarrow> char \<Rightarrow> string" where
  \<comment> \<open>one character inside \<^verbatim>\<open>repr\<close> of a string delimited by \<open>q\<close>\<close>
  "repr_char q c = (\<lambda>n::nat.
       if c = q \<or> c = CHR 0x5C then [CHR 0x5C, c]
       else if n = 9 then [CHR 0x5C, CHR ''t'']
       else if n = 10 then [CHR 0x5C, CHR ''n'']
       else if n = 13 then [CHR 0x5C, CHR ''r'']
       else if n < 32 \<or> (127 \<le> n \<and> n \<le> 160) \<or> n = 173 then [CHR 0x5C, CHR ''x''] @ hex2 n
       else [c]) (of_char c)"

definition repr_str :: "string \<Rightarrow> string" where
  "repr_str s =
     (let q = (if CHR 0x27 \<in> set s \<and> CHR 0x22 \<notin> set s then CHR 0x22 else CHR 0x27)
      in q # concat (map (repr_char q) s) @ [q])"

fun commas :: "string list \<Rightarrow> string" where
  \<comment> \<open>\<^verbatim>\<open>", ".join(xs)\<close>\<close>
  "commas [] = []"
| "commas [x] = x"
| "commas (x # y # ys) = x @ '', '' @ commas (y # ys)"

fun py_repr :: "json \<Rightarrow> string" where
  "py_repr JNull = ''None''"
| "py_repr (JBool b) = (if b then ''True'' else ''False'')"
| "py_repr (JInt i) = show_int i"
| "py_repr (JStr s) = repr_str s"
| "py_repr (JArr xs) = ''['' @ commas (map py_repr xs) @ '']''"
| "py_repr (JObj kv) =
     ''{'' @ commas (map (\<lambda>(k, v). repr_str k @ '': '' @ py_repr v) kv) @ ''}''"

fun repr_ok :: "json \<Rightarrow> bool" where
  \<comment> \<open>no integer in the value is too long for its decimal form\<close>
  "repr_ok (JInt i) = int_str_ok i"
| "repr_ok (JArr xs) = list_all repr_ok xs"
| "repr_ok (JObj kv) = list_all (\<lambda>(k, v). repr_ok v) kv"
| "repr_ok v = True"

definition py_str :: "json \<Rightarrow> error + string" where
  \<comment> \<open>\<^verbatim>\<open>str(v)\<close>, also what an f-string puts for \<^verbatim>\<open>{v}\<close>\<close>
  "py_str v =
     (case v of
        JStr s \<Rightarrow> Inr s
      | _ \<Rightarrow> if repr_ok v then Inr (py_repr v) else Inl ValueError)"

definition py_int :: "json \<Rightarrow> error + int" where
  \<comment> \<open>\<^verbatim>\<open>int(v)\<close>\<close>
  "py_int v = (case v of JInt i \<Rightarrow> Inr i | JBool b \<Rightarrow> Inr (if b then 1 else 0)
               | JStr s \<Rightarrow> py_int_str s | _ \<Rightarrow> Inl TypeError)"

definition py_iter :: "json \<Rightarrow> error + json list" where
  \<comment> \<open>the items a \<^verbatim>\<open>for\<close> loop over the value visits\<close>
  "py_iter v = (case v of JArr xs \<Rightarrow> Inr xs | JStr s \<Rightarrow> Inr (map (\<lambda>c. JStr [c]) s)
                | JObj kv \<Rightarrow> Inr (map (\<lambda>(k, _). JStr k) kv) | _ \<Rightarrow> Inl TypeError)"

fun int_each :: "json list \<Rightarrow> error + int list" where
  \<comment> \<open>\<^verbatim>\<open>[int(g) for g in xs]\<close>: the first failure is raised\<close>
  "int_each [] = Inr []"
| "int_each (x # xs) =
     (case py_int x of
        Inl e \<Rightarrow> Inl e
      | Inr i \<Rightarrow> (case int_each xs of Inl e \<Rightarrow> Inl e | Inr is \<Rightarrow> Inr (i # is)))"

text \<open>
  The file system maps a path (as the program writes it; two spellings of one path are
  two paths here) to what it names. A file holds one of four things: a JSON document,
  given by the value that \<^verbatim>\<open>json.load\<close> reads from it and \<^verbatim>\<open>json.dump\<close> writes for it;
  bytes that \<^verbatim>\<open>json.load\<close> rejects with a \<^verbatim>\<open>ValueError\<close> (\<^verbatim>\<open>JSONDecodeError\<close>,
  \<^verbatim>\<open>UnicodeDecodeError\<close>), as a poster image or a video; the beginning of a document,
  left behind when \<^verbatim>\<open>json.dump\<close> raised part-way, which \<^verbatim>\<open>json.load\<close> rejects in the same
  way; or bytes nested so deeply (as a long run of opening brackets) that \<^verbatim>\<open>json.load\<close>
  raises \<^verbatim>\<open>RecursionError\<close> on them. A directory lists its entries in the order
  \<^verbatim>\<open>os.scandir\<close> yields them.
\<close>

datatype content = Json json | Raw string | Partial | Deep string

datatype node = File content | Dir "string list"

type_synonym fs = "string \<Rightarrow> node option"

text \<open>
  Some paths are refused whatever the file system holds: Python refuses a path with a
  NUL character, the empty path names nothing, and the system refuses a path of
  \<open>PATH_MAX\<close> bytes or more or with a component of more than \<open>NAME_MAX\<close> bytes.
\<close>

definition NAME_MAX :: int where "NAME_MAX = 255"
definition PATH_MAX :: int where "PATH_MAX = 4096"

definition utf8_length :: "string \<Rightarrow> int" where
  \<comment> \<open>the number of bytes of \<^verbatim>\<open>os.fsencode(s)\<close>: two for a code point from 128 on\<close>
  "utf8_length s = int (length s) + int (length (filter (\<lambda>c. 128 \<le> (of_char c :: nat)) s))"

definition components :: "string \<Rightarrow> string list" where
  \<comment> \<open>\<^verbatim>\<open>p.split("/")\<close>\<close>
  "components p =
     foldr (\<lambda>c acc. if c = CHR ''/'' then [] # acc else (c # hd acc) # tl acc) p [[]]"

definition path_error :: "string \<Rightarrow> error option" where
  "path_error p =
     (if CHR 0x00 \<in> set p then Some ValueError
      else if p = [] then Some FileNotFoundError
      else if PATH_MAX \<le> utf8_length p \<or>
              list_ex (\<lambda>n. NAME_MAX < utf8_length n) (components p) then Some OSError
      else None)"

definition stat :: "fs \<Rightarrow> string \<Rightarrow> node option" where
  \<comment> \<open>what the path names, \<open>None\<close> when the look-up fails\<close>
  "stat fs p = (if path_error p = None then fs p else None)"

definition exists :: "fs \<Rightarrow> string \<Rightarrow> bool" where
  \<comment> \<open>\<^verbatim>\<open>os.path.exists\<close>: false also when the look-up raises\<close>
  "exists fs p = (stat fs p \<noteq> None)"

definition is_file :: "fs \<Rightarrow> string \<Rightarrow> bool" where
  "is_file fs p = (case stat fs p of Some (File _) \<Rightarrow> True | _ \<Rightarrow> False)"

definition is_dir :: "fs \<Rightarrow> string \<Rightarrow> bool" where
  "is_dir fs p = (case stat fs p of Some (Dir _) \<Rightarrow> True | _ \<Rightarrow> False)"

definition scandir :: "fs \<Rightarrow> string \<Rightarrow> error + string list" where
  \<comment> \<open>the entry names of a directory\<close>
  "scandir fs p =
     (case path_error p of
        Some e \<Rightarrow> Inl e
      | None \<Rightarrow>
          (case fs p of
             Some (Dir names) \<Rightarrow> Inr names
           | Some (File _) \<Rightarrow> Inl NotADirectoryError
           | None \<Rightarrow> Inl FileNotFoundError))"

definition read_file :: "fs \<Rightarrow> string \<Rightarrow> error + content" where
  \<comment> \<open>\<^verbatim>\<open>open(p, "r")\<close> and reading it all\<close>
  "read_file fs p =
     (case path_error p of
        Some e \<Rightarrow> Inl e
      | None \<Rightarrow>
          (case fs p of
             Some (File c) \<Rightarrow> Inr c
           | Some (Dir _) \<Rightarrow> Inl IsADirectoryError
           | None \<Rightarrow> Inl FileNotFoundError))"

definition parent :: "string \<Rightarrow> string" where
  \<comment> \<open>the directory in which the last component of the path is looked up\<close>
  "parent p = (if dirname p = [] then ''.'' else dirname p)"

definition write_file :: "fs \<Rightarrow> string \<Rightarrow> content \<Rightarrow> error + fs" where
  \<comment> \<open>\<^verbatim>\<open>open(p, "w")\<close> and writing the whole content: the file is created in an existing
      directory or replaced\<close>
  "write_file fs p c =
     (case path_error p of
        Some e \<Rightarrow> Inl e
      | None \<Rightarrow>
          (case fs p of
             Some (Dir _) \<Rightarrow> Inl IsADirectoryError
           | Some (File _) \<Rightarrow> Inr (fs(p \<mapsto> File c))
           | None \<Rightarrow>
               (case stat fs (parent p) of
                  Some (Dir names) \<Rightarrow>
                    if basename p = [] then Inl IsADirectoryError
                    else Inr (fs(parent p \<mapsto> Dir (names @ [basename p]), p \<mapsto> File c))
                | Some (File _) \<Rightarrow> Inl NotADirectoryError
                | None \<Rightarrow> Inl FileNotFoundError)))"

definition remove_file :: "fs \<Rightarrow> string \<Rightarrow> error + fs" where
  \<comment> \<open>\<^verbatim>\<open>os.remove(p)\<close>\<close>
  "remove_file fs p =
     (case path_error p of
        Some e \<Rightarrow> Inl e
      | None \<Rightarrow>
          (case fs p of
             Some (File _) \<Rightarrow>
               Inr ((case stat fs (parent p) of
                       Some (Dir names) \<Rightarrow>
                         fs(parent p \<mapsto> Dir (removeAll (basename p) names))
                     | _ \<Rightarrow> fs)(p := None))
           | Some (Dir _) \<Rightarrow> Inl IsADirectoryError
           | None \<Rightarrow> Inl FileNotFoundError))"

subsection \<open>Metadata Cache\<close>

definition CACHE_DIR :: string where "CACHE_DIR = ''.cache''"
definition METADATA_DIR :: string where "METADATA_DIR = join CACHE_DIR ''metadata''"
definition POSTER_DIR :: string where "POSTER_DIR = join CACHE_DIR ''posters''"

definition get_cached_metadata :: "fs \<Rightarrow> string \<Rightarrow> error + (json \<times> fs)" where
  "get_cached_metadata fs filename =
     (let path = join METADATA_DIR (filename @ ''.json'')
      in if exists fs path then
           (case read_file fs path of
              Inl e \<Rightarrow> Inl e
            | Inr (Json v) \<Rightarrow> Inr (v, fs)
            | Inr (Deep _) \<Rightarrow> Inl RecursionError
            | Inr (Raw _) \<Rightarrow>
                (case remove_file fs path of Inl e \<Rightarrow> Inl e | Inr fs' \<Rightarrow> Inr (JNull, fs'))
            | Inr Partial \<Rightarrow>
                (case remove_file fs path of Inl e \<Rightarrow> Inl e | Inr fs' \<Rightarrow> Inr (JNull, fs')))
         else Inr (JNull, fs))"

text \<open>
  \<^verbatim>\<open>save_metadata\<close> returns the exception it raises, if any, and the file system it
  leaves. The file is opened, and so created or emptied, before \<^verbatim>\<open>json.dump\<close> starts;
  \<^verbatim>\<open>json.dump\<close> writes piece by piece and raises \<^verbatim>\<open>ValueError\<close> at an integer that is
  too long for its decimal form.
\<close>

definition save_metadata :: "fs \<Rightarrow> json \<Rightarrow> (string \<times> json) list \<Rightarrow> error option \<times> fs" where
  "save_metadata fs filename data =
     (case py_str (dict_get data ''title'' (JStr [])) of
        Inl e \<Rightarrow> (Some e, fs)
      | Inr title \<Rightarrow>
     (case py_str (dict_get data ''overview'' (JStr [])) of
        Inl e \<Rightarrow> (Some e, fs)
      | Inr overview \<Rightarrow>
     (case py_iter (dict_get data ''genres'' (JArr [])) of
        Inl e \<Rightarrow> (Some e, fs)
      | Inr gs \<Rightarrow>
     (case int_each gs of
        Inl e \<Rightarrow> (Some e, fs)
      | Inr genres \<Rightarrow>
     (case py_str filename of
        Inl e \<Rightarrow> (Some e, fs)
      | Inr name \<Rightarrow>
          (let path = join METADATA_DIR (name @ ''.json'')
           in if list_all int_str_ok genres then
                (case write_file fs path
                        (Json (JObj [(''title'', JStr title), (''overview'', JStr overview),
                                     (''genres'', JArr (map JInt genres))])) of
                   Inl e \<Rightarrow> (Some e, fs)
                 | Inr fs' \<Rightarrow> (None, fs'))
              else
                (case write_file fs path Partial of
                   Inl e \<Rightarrow> (Some e, fs)
                 | Inr fs' \<Rightarrow> (Some ValueError, fs'))))))))"

definition get_cached_poster :: "fs \<Rightarrow> string \<Rightarrow> string option" where
  "get_cached_poster fs filename =
     (let path = join POSTER_DIR (filename @ ''.jpg'')
      in if exists fs path then Some path else None)"

definition download_poster ::
  "(string \<Rightarrow> string option) \<Rightarrow> fs \<Rightarrow> json \<Rightarrow> json \<Rightarrow> string option \<times> fs" where
  \<comment> \<open>\<open>http url\<close> is the body that \<^verbatim>\<open>requests.get(url)\<close> returns, \<open>None\<close> when it
      raises; any exception makes the result \<^verbatim>\<open>None\<close>\<close>
  "download_poster http fs poster_path filename =
     (case py_str poster_path of
        Inl _ \<Rightarrow> (None, fs)
      | Inr pp \<Rightarrow>
          (case http (''https://image.tmdb.org/t/p/original'' @ pp) of
             None \<Rightarrow> (None, fs)
           | Some data \<Rightarrow>
               (case py_str filename of
                  Inl _ \<Rightarrow> (None, fs)
                | Inr name \<Rightarrow>
                    (let path = join POSTER_DIR (name @ ''.jpg'')
                     in case write_file fs path (Raw data) of
                          Inl _ \<Rightarrow> (None, fs)
                        | Inr fs' \<Rightarrow> (Some path, fs')))))"

subsection \<open>Season Grouper\<close>

record episode =
  ep_name :: string
  ep_path :: string
  ep_poster_path :: string

definition Episode :: "fs \<Rightarrow> string \<Rightarrow> string \<Rightarrow> string option \<Rightarrow> episode" where
  \<comment> \<open>\<^verbatim>\<open>Episode.__init__(title, path, poster_path=None)\<close>\<close>
  "Episode fs title path poster_path =
     \<lparr>ep_name = title, ep_path = path,
      ep_poster_path =
        (case poster_path of
           Some p \<Rightarrow> if p \<noteq> [] \<and> exists fs p then p else ''video.png''
         | None \<Rightarrow> ''video.png'')\<rparr>"

definition default_video_exts :: "string list" where
  \<comment> \<open>the default of the parameter \<^verbatim>\<open>video_exts\<close> of \<^verbatim>\<open>parse_series_folder\<close>\<close>
  "default_video_exts = [''.mkv'', ''.mp4'', ''.avi'']"

type_synonym seasons = "(string \<times> episode list) list"

definition seasons_append :: "seasons \<Rightarrow> string \<Rightarrow> episode \<Rightarrow> seasons" where
  \<comment> \<open>\<^verbatim>\<open>if k not in seasons: seasons[k] = []\<close>, then \<^verbatim>\<open>seasons[k].append(e)\<close>; the
      dictionary keeps its keys in insertion order\<close>
  "seasons_append seasons k e =
     (case map_of seasons k of
        None \<Rightarrow> seasons @ [(k, [e])]
      | Some _ \<Rightarrow> map (\<lambda>(k', eps). if k' = k then (k', eps @ [e]) else (k', eps)) seasons)"

definition series_entry :: "fs \<Rightarrow> string \<Rightarrow> string list \<Rightarrow> seasons \<Rightarrow> string \<Rightarrow> error + seasons"
  where
  \<comment> \<open>the body of the loop over \<^verbatim>\<open>os.scandir(folder_path)\<close>, for the entry \<open>name\<close>\<close>
  "series_entry fs folder_path video_exts seasons name =
     (if is_file fs (join folder_path name) \<and> endswith_any (map lower name) video_exts then
        (let name_no_ext = fst (splitext name);
             parsed =
               (case re_match re_episode name_no_ext of
                  Some m \<Rightarrow>
                    (case py_int_str (group m 1) of
                       Inl e \<Rightarrow> Inl e
                     | Inr season_num \<Rightarrow>
                         (case py_int_str (group m 2) of
                            Inl e \<Rightarrow> Inl e
                          | Inr episode_num \<Rightarrow> Inr (season_num, episode_num, strip (group m 3))))
                | None \<Rightarrow> Inr (1, 0, name_no_ext))
         in case parsed of
              Inl e \<Rightarrow> Inl e
            | Inr (season_num, episode_num, title) \<Rightarrow>
                Inr (seasons_append seasons (''Season '' @ show_int season_num)
                       (Episode fs title (join folder_path name) None)))
      else Inr seasons)"

fun series_entries ::
  "fs \<Rightarrow> string \<Rightarrow> string list \<Rightarrow> seasons \<Rightarrow> string list \<Rightarrow> error + seasons" where
  "series_entries fs folder_path video_exts seasons [] = Inr seasons"
| "series_entries fs folder_path video_exts seasons (name # names) =
     (case series_entry fs folder_path video_exts seasons name of
        Inl e \<Rightarrow> Inl e
      | Inr seasons' \<Rightarrow> series_entries fs folder_path video_exts seasons' names)"

fun those_keys :: "(error + int) list \<Rightarrow> error + int list" where
  "those_keys [] = Inr []"
| "those_keys (x # xs) =
     (case x of
        Inl e \<Rightarrow> Inl e
      | Inr k \<Rightarrow> (case those_keys xs of Inl e \<Rightarrow> Inl e | Inr ks \<Rightarrow> Inr (k # ks)))"

definition sort_episodes :: "episode list \<Rightarrow> error + episode list" where
  \<comment> \<open>\<^verbatim>\<open>eps.sort(key=lambda e: parse_episode_number(e.name))\<close>: the keys are computed
      first, the sort is stable\<close>
  "sort_episodes eps =
     (case those_keys (map (\<lambda>e. parse_episode_number (ep_name e)) eps) of
        Inl e \<Rightarrow> Inl e
      | Inr ks \<Rightarrow> Inr (map snd (sort_key fst (zip ks eps))))"

fun sort_seasons :: "seasons \<Rightarrow> error + seasons" where
  "sort_seasons [] = Inr []"
| "sort_seasons ((k, eps) # rest) =
     (case sort_episodes eps of
        Inl e \<Rightarrow> Inl e
      | Inr eps' \<Rightarrow>
          (case sort_seasons rest of Inl e \<Rightarrow> Inl e | Inr rest' \<Rightarrow> Inr ((k, eps') # rest')))"

definition parse_series_folder :: "fs \<Rightarrow> string \<Rightarrow> string list \<Rightarrow> error + seasons" where
  "parse_series_folder fs folder_path video_exts =
     (if \<not> exists fs folder_path then Inr []
      else case scandir fs folder_path of
             Inl e \<Rightarrow> Inl e
           | Inr names \<Rightarrow>
               (case series_entries fs folder_path video_exts [] names of
                  Inl e \<Rightarrow> Inl e
                | Inr seasons \<Rightarrow> sort_seasons seasons))"

subsection \<open>Video listings\<close>

definition VIDEO_EXTS :: "string list" where
  "VIDEO_EXTS = [''.mp4'', ''.mkv'', ''.avi'', ''.mov'', ''.flv'', ''.wmv'', ''.webm'']"

definition is_video_file :: "string \<Rightarrow> bool" where
  "is_video_file filename =
     (map lower (snd (splitext filename)) \<in>
        set [''.mp4'', ''.mkv'', ''.avi'', ''.mov'', ''.wmv'', ''.flv''])"

fun walk :: "nat \<Rightarrow> fs \<Rightarrow> string \<Rightarrow> (string \<times> string list \<times> string list) list option" where
  \<comment> \<open>\<^verbatim>\<open>os.walk(top)\<close>, top down, to a depth of at most the fuel; \<open>None\<close> when the fuel
      runs out. The entries that are not directories are the files of the triple.\<close>
  "walk 0 fs topdir = None"
| "walk (Suc n) fs topdir =
     (case stat fs topdir of
        Some (Dir names) \<Rightarrow>
          (let dirs = filter (\<lambda>d. is_dir fs (join topdir d)) names;
               nondirs = filter (\<lambda>d. \<not> is_dir fs (join topdir d)) names
           in case those (map (\<lambda>d. walk n fs (join topdir d)) dirs) of
                None \<Rightarrow> None
              | Some below \<Rightarrow> Some ((topdir, dirs, nondirs) # concat below))
      | _ \<Rightarrow> Some [])"

definition list_videos_in_dir :: "nat \<Rightarrow> fs \<Rightarrow> bool \<Rightarrow> string \<Rightarrow> (error + string list) option"
  where
  \<comment> \<open>the body of the loop over \<^verbatim>\<open>folders\<close> in \<^verbatim>\<open>list_videos_in_dirs\<close>\<close>
  "list_videos_in_dir fuel fs recursive folder =
     (let video_exts = [''.mp4'', ''.mkv'', ''.avi'', ''.mov'', ''.wmv'', ''.flv'']
      in if \<not> exists fs folder then Some (Inr [])
         else if recursive then
           (case walk fuel fs folder of
              None \<Rightarrow> None
            | Some triples \<Rightarrow>
                Some (Inr (concat (map (\<lambda>(root, dirs, files).
                        map (join root)
                          (filter (\<lambda>name. map lower (snd (splitext name)) \<in> set video_exts)
                             files)) triples))))
         else
           (case scandir fs folder of
              Inl e \<Rightarrow> Some (Inl e)
            | Inr names \<Rightarrow>
                Some (Inr (map (join folder)
                        (filter (\<lambda>name. is_file fs (join folder name) \<and>
                                   map lower (snd (splitext name)) \<in> set video_exts) names)))))"

fun list_videos_in_dirs ::
  "nat \<Rightarrow> fs \<Rightarrow> string list \<Rightarrow> bool \<Rightarrow> (error + string list) option" where
  "list_videos_in_dirs fuel fs [] recursive = Some (Inr [])"
| "list_videos_in_dirs fuel fs (folder # folders) recursive =
     (case list_videos_in_dir fuel fs recursive folder of
        None \<Rightarrow> None
      | Some (Inl e) \<Rightarrow> Some (Inl e)
      | Some (Inr vs) \<Rightarrow>
          (case list_videos_in_dirs fuel fs folders recursive of
             None \<Rightarrow> None
           | Some (Inl e) \<Rightarrow> Some (Inl e)
           | Some (Inr ws) \<Rightarrow> Some (Inr (vs @ ws))))"

subsection \<open>Library items and the cache\<close>

record video_item =
  vi_path :: string
  vi_filename :: string
  vi_title :: json
  vi_overview :: json
  vi_genres :: json
  vi_poster_path :: "string option"

definition video_item_init :: "fs \<Rightarrow> string \<Rightarrow> error + (video_item \<times> fs)" where
  \<comment> \<open>\<^verbatim>\<open>VideoItem.__init__(path)\<close>, up to the start of the fetching thread\<close>
  "video_item_init fs path =
     (let filename = fst (splitext (basename path));
          title = basename path
      in case get_cached_metadata fs filename of
           Inl e \<Rightarrow> Inl e
         | Inr (metadata, fs') \<Rightarrow>
             (let poster_file = get_cached_poster fs' filename
              in if truthy metadata then
                   (case metadata of
                      JObj d \<Rightarrow>
                        Inr (\<lparr>vi_path = path, vi_filename = filename,
                              vi_title = dict_get d ''title'' (JStr title),
                              vi_overview =
                                dict_get d ''overview'' (JStr ''No description available.''),
                              vi_genres = dict_get d ''genres'' (JArr []),
                              vi_poster_path = poster_file\<rparr>, fs')
                    | _ \<Rightarrow> Inl AttributeError)
                 else
                   Inr (\<lparr>vi_path = path, vi_filename = filename,
                         vi_title = JStr title,
                         vi_overview = JStr ''No description available.'',
                         vi_genres = JArr [],
                         vi_poster_path = poster_file\<rparr>, fs')))"

record series_item =
  si_folder_path :: string
  si_title :: json
  si_overview :: json
  si_genres :: json
  si_poster_path :: "string option"

definition series_item_init :: "fs \<Rightarrow> string \<Rightarrow> error + (series_item \<times> fs)" where
  \<comment> \<open>\<^verbatim>\<open>SeriesItem.__init__(folder_path)\<close>, up to the start of the fetching thread\<close>
  "series_item_init fs folder_path =
     (let title = basename folder_path
      in case get_cached_metadata fs title of
           Inl e \<Rightarrow> Inl e
         | Inr (metadata, fs') \<Rightarrow>
             (let poster_file = get_cached_poster fs' title
              in if truthy metadata then
                   (case metadata of
                      JObj d \<Rightarrow>
                        Inr (\<lparr>si_folder_path = folder_path,
                              si_title = dict_get d ''title'' (JStr title),
                              si_overview =
                                dict_get d ''overview'' (JStr ''No description available.''),
                              si_genres = dict_get d ''genres'' (JArr []),
                              si_poster_path = poster_file\<rparr>, fs')
                    | _ \<Rightarrow> Inl AttributeError)
                 else
                   Inr (\<lparr>si_folder_path = folder_path,
                         si_title = JStr title,
                         si_overview = JStr ''No description available.'',
                         si_genres = JArr [],
                         si_poster_path = poster_file\<rparr>, fs')))"

text \<open>
  The scanning loop of \<^verbatim>\<open>LibraryWindow.refresh_list\<close>. The loop runs the constructor of
  each item it appends: the constructor reads the cache, removes a metadata file that
  does not parse, and may raise, which ends the scan. In the list that the loop
  returns an item is named by its class and the path passed to its constructor. The
  search and genre filters that follow the loop are not part of the model.
\<close>

datatype library_item = VideoItem string | SeriesItem string

definition scan_entry :: "fs \<Rightarrow> string \<Rightarrow> string \<Rightarrow> error + (library_item list \<times> fs)" where
  \<comment> \<open>the body of the loop over \<^verbatim>\<open>os.scandir(folder)\<close>, for the entry \<open>name\<close>\<close>
  "scan_entry fs folder name =
     (let path = join folder name
      in if is_file fs path \<and> endswith_any (map lower name) VIDEO_EXTS then
           (case video_item_init fs path of
              Inl e \<Rightarrow> Inl e
            | Inr (vi, fs') \<Rightarrow> Inr ([VideoItem path], fs'))
         else if is_dir fs path then
           (case scandir fs path of
              Inl e \<Rightarrow> Inl e
            | Inr sub \<Rightarrow>
                (let has_videos =
                       list_ex (\<lambda>f. is_file fs (join path f) \<and>
                                  endswith_any (map lower f) VIDEO_EXTS) sub
                 in if has_videos then
                      (case series_item_init fs path of
                         Inl e \<Rightarrow> Inl e
                       | Inr (si, fs') \<Rightarrow> Inr ([SeriesItem path], fs'))
                    else Inr ([], fs)))
         else Inr ([], fs))"

fun scan_entries ::
  "fs \<Rightarrow> string \<Rightarrow> string list \<Rightarrow> error + (library_item list \<times> fs)" where
  "scan_entries fs folder [] = Inr ([], fs)"
| "scan_entries fs folder (name # names) =
     (case scan_entry fs folder name of
        Inl e \<Rightarrow> Inl e
      | Inr (items, fs1) \<Rightarrow>
          (case scan_entries fs1 folder names of
             Inl e \<Rightarrow> Inl e
           | Inr (items', fs2) \<Rightarrow> Inr (items @ items', fs2)))"

fun scan_folders :: "fs \<Rightarrow> string list \<Rightarrow> error + (library_item list \<times> fs)" where
  "scan_folders fs [] = Inr ([], fs)"
| "scan_folders fs (folder # folders) =
     (if \<not> exists fs folder then scan_folders fs folders
      else case scandir fs folder of
             Inl e \<Rightarrow> Inl e
           | Inr names \<Rightarrow>
               (case scan_entries fs folder names of
                  Inl e \<Rightarrow> Inl e
                | Inr (items, fs1) \<Rightarrow>
                    (case scan_folders fs1 folders of
                       Inl e \<Rightarrow> Inl e
                     | Inr (items', fs2) \<Rightarrow> Inr (items @ items', fs2))))"

definition refresh_list :: "fs \<Rightarrow> string list \<Rightarrow> error + library_item list" where
  \<comment> \<open>the list \<^verbatim>\<open>items\<close> at the end of the loop\<close>
  "refresh_list fs folders =
     (case scan_folders fs folders of Inl e \<Rightarrow> Inl e | Inr (items, _) \<Rightarrow> Inr items)"

text \<open>
  A search result of the remote API: an attribute that the result lacks is \<open>None\<close>.
  \<open>tv_search q\<close> is the list that \<^verbatim>\<open>tv_api.search(q)\<close> returns, \<open>None\<close> when it raises.
\<close>

record tv_show =
  tv_name :: "json option"
  tv_overview :: "json option"
  tv_genre_ids :: "json option"
  tv_poster_path :: "json option"

definition fetch_metadata ::
  "(json \<Rightarrow> tv_show list option) \<Rightarrow> (string \<Rightarrow> string option) \<Rightarrow> fs \<Rightarrow> series_item
     \<Rightarrow> series_item \<times> fs" where
  \<comment> \<open>\<^verbatim>\<open>SeriesItem.fetch_metadata\<close>: every exception ends the method, keeping the
      assignments made before it\<close>
  "fetch_metadata tv_search http fs item =
     (case tv_search (si_title item) of
        None \<Rightarrow> (item, fs)
      | Some [] \<Rightarrow> (item, fs)
      | Some (tv # _) \<Rightarrow>
          (case tv_name tv of
             None \<Rightarrow> (item, fs)
           | Some nm \<Rightarrow>
               (let item1 = item\<lparr>si_title := (if truthy nm then nm else si_title item)\<rparr>
                in case tv_overview tv of
                     None \<Rightarrow> (item1, fs)
                   | Some ov \<Rightarrow>
                       (let item2 =
                              item1\<lparr>si_overview := (if truthy ov then ov else si_overview item1)\<rparr>
                        in case py_iter (case tv_genre_ids tv of None \<Rightarrow> JArr [] | Some g \<Rightarrow> g) of
                             Inl _ \<Rightarrow> (item2, fs)
                           | Inr gs \<Rightarrow>
                               (let item3 = item2\<lparr>si_genres := JArr gs\<rparr>
                                in case save_metadata fs (si_title item3)
                                          [(''title'', si_title item3),
                                           (''overview'', si_overview item3),
                                           (''genres'', si_genres item3)] of
                                     (Some _, fs1) \<Rightarrow> (item3, fs1)
                                   | (None, fs1) \<Rightarrow>
                                       (case tv_poster_path tv of
                                          None \<Rightarrow> (item3, fs1)
                                        | Some pp \<Rightarrow>
                                            if truthy pp then
                                              (case download_poster http fs1 pp
                                                      (si_title item3) of
                                                 (Some local_poster, fs2) \<Rightarrow>
                                                   (item3\<lparr>si_poster_path := Some local_poster\<rparr>, fs2)
                                               | (None, fs2) \<Rightarrow> (item3, fs2))
                                            else (item3, fs1)))))))"

definition fresh_fs :: fs where
  \<comment> \<open>the working directory after the two \<^verbatim>\<open>os.makedirs\<close> calls at start-up, with
      nothing cached yet\<close>
  "fresh_fs =
     (Map.empty(''.cache'' \<mapsto> Dir [''metadata'', ''posters''],
        ''.cache/metadata'' \<mapsto> Dir [], ''.cache/posters'' \<mapsto> Dir []))"

subsection \<open>Example folders\<close>

definition beta_alpha_fs :: fs where
  \<comment> \<open>a series folder whose scan yields \<^verbatim>\<open>S01E02 - Beta.mkv\<close> before
      \<^verbatim>\<open>S01E01 - Alpha.mkv\<close>\<close>
  "beta_alpha_fs =
     fresh_fs(''/show'' \<mapsto> Dir [''S01E02 - Beta.mkv'', ''S01E01 - Alpha.mkv''],
       ''/show/S01E02 - Beta.mkv'' \<mapsto> File (Raw []),
       ''/show/S01E01 - Alpha.mkv'' \<mapsto> File (Raw []))"

definition mixed_exts_fs :: fs where
  \<comment> \<open>a folder with one file of each of three extensions\<close>
  "mixed_exts_fs =
     fresh_fs(''/lib'' \<mapsto> Dir [''clip.webm'', ''a.mov'', ''b.mkv''],
       ''/lib/clip.webm'' \<mapsto> File (Raw []),
       ''/lib/a.mov'' \<mapsto> File (Raw []),
       ''/lib/b.mkv'' \<mapsto> File (Raw []))"

subsection \<open>Notions of the specification used in the claims\<close>

definition can_write :: "fs \<Rightarrow> string \<Rightarrow> bool" where
  \<comment> \<open>the system accepts the path, and the path names a file or names nothing inside an
      existing directory\<close>
  "can_write fs p =
     (path_error p = None \<and> (is_file fs p \<or> (\<not> exists fs p \<and> is_dir fs (parent p))))"

definition is_genre_id :: "json \<Rightarrow> bool" where
  \<comment> \<open>an integer or a numeric string, of at most \<open>int_max_str_digits\<close> digits\<close>
  "is_genre_id g =
     (case g of
        JInt i \<Rightarrow> int_str_ok i
      | JStr s \<Rightarrow> s \<noteq> [] \<and> list_all is_digit s \<and> int (length s) \<le> int_max_str_digits
      | _ \<Rightarrow> False)"

definition genre_id_val :: "json \<Rightarrow> int" where
  "genre_id_val g = (case g of JInt i \<Rightarrow> i | JStr s \<Rightarrow> int (digits_val s) | _ \<Rightarrow> 0)"

definition breaking_bad_search :: "json \<Rightarrow> tv_show list option" where
  \<comment> \<open>a remote search that answers every query with the show \<^verbatim>\<open>Breaking Bad\<close>\<close>
  "breaking_bad_search q =
     Some [\<lparr>tv_name = Some (JStr ''Breaking Bad''), tv_overview = Some (JStr ''Chemistry''),
            tv_genre_ids = Some (JArr [JInt 18]), tv_poster_path = None\<rparr>]"

definition has_video_ext :: "string \<Rightarrow> bool" where
  \<comment> \<open>the name ends, in any letter case, with one of the recognised extensions\<close>
  "has_video_ext name = (\<exists>stem ext. name = stem @ ext \<and> map lower ext \<in> set VIDEO_EXTS)"

definition load_rejects :: "content \<Rightarrow> bool" where
  \<comment> \<open>\<^verbatim>\<open>json.load\<close> raises \<^verbatim>\<open>ValueError\<close> on the content\<close>
  "load_rejects c = (case c of Raw _ \<Rightarrow> True | Partial \<Rightarrow> True | _ \<Rightarrow> False)"

definition huge_id :: int where
  \<comment> \<open>the least integer with 4301 digits\<close>
  "huge_id = 10 ^ 4300"

definition deep_bytes :: string where
  \<comment> \<open>a hundred thousand opening brackets\<close>
  "deep_bytes = replicate 100000 (CHR ''['')"

definition deep_cache_fs :: fs where
  \<comment> \<open>a cache whose metadata file for the key \<^verbatim>\<open>k\<close> holds \<open>deep_bytes\<close>\<close>
  "deep_cache_fs =
     fresh_fs(''.cache/metadata'' \<mapsto> Dir [''k.json''],
       ''.cache/metadata/k.json'' \<mapsto> File (Deep deep_bytes))"

definition one_each_fs :: fs where
  \<comment> \<open>a library folder with one plain video file and one subfolder holding a video\<close>
  "one_each_fs =
     fresh_fs(''/media'' \<mapsto> Dir [''Movie.mkv'', ''Show''],
       ''/media/Movie.mkv'' \<mapsto> File (Raw []),
       ''/media/Show'' \<mapsto> Dir [''S01E01 - Pilot.MKV''],
       ''/media/Show/S01E01 - Pilot.MKV'' \<mapsto> File (Raw []))"

definition list_cache_fs :: fs where
  \<comment> \<open>the same library, the metadata file for the key \<^verbatim>\<open>Show\<close> holding the JSON list
      \<^verbatim>\<open>[1]\<close>\<close>
  "list_cache_fs =
     one_each_fs(''.cache/metadata'' \<mapsto> Dir [''Show.json''],
       ''.cache/metadata/Show.json'' \<mapsto> File (Json (JArr [JInt 1])))"

text \<open>
  The scan in the specification's words: a direct child of a scanned folder is listed
  as a video when it is a plain file with a video extension, as a series when it is a
  subfolder with at least one such file directly inside, and not at all otherwise.
  The constructor of an item looks the cache up under \<open>cache_key\<close>; the look-up is
  harmless when the key has no metadata file, or one that holds a JSON object or a
  value that counts as false.
\<close>

definition children :: "fs \<Rightarrow> string \<Rightarrow> string list" where
  \<comment> \<open>the direct children of a directory in scan order; none for anything else\<close>
  "children fs folder = (case stat fs folder of Some (Dir names) \<Rightarrow> names | _ \<Rightarrow> [])"

definition plain_video :: "fs \<Rightarrow> string \<Rightarrow> string \<Rightarrow> bool" where
  "plain_video fs folder name = (is_file fs (join folder name) \<and> has_video_ext name)"

definition series_folder :: "fs \<Rightarrow> string \<Rightarrow> string \<Rightarrow> bool" where
  "series_folder fs folder name =
     (is_dir fs (join folder name) \<and>
      (\<exists>f\<in>set (children fs (join folder name)). plain_video fs (join folder name) f))"

definition entry_item :: "fs \<Rightarrow> string \<Rightarrow> string \<Rightarrow> library_item option" where
  "entry_item fs folder name =
     (if plain_video fs folder name then Some (VideoItem (join folder name))
      else if series_folder fs folder name then Some (SeriesItem (join folder name))
      else None)"

definition listed :: "fs \<Rightarrow> string \<Rightarrow> library_item list" where
  \<comment> \<open>what a scanned folder contributes: one item for each child that is listed, in scan
      order\<close>
  "listed fs folder = List.map_filter (entry_item fs folder) (children fs folder)"

definition cache_key :: "library_item \<Rightarrow> string" where
  "cache_key item =
     (case item of VideoItem p \<Rightarrow> fst (splitext (basename p)) | SeriesItem p \<Rightarrow> basename p)"

definition cache_usable :: "fs \<Rightarrow> string \<Rightarrow> bool" where
  "cache_usable fs key =
     (case stat fs (join METADATA_DIR (key @ ''.json'')) of
        None \<Rightarrow> True
      | Some (File (Json v)) \<Rightarrow> (case v of JObj _ \<Rightarrow> True | _ \<Rightarrow> \<not> truthy v)
      | _ \<Rightarrow> False)"

definition entries_usable :: "fs \<Rightarrow> string \<Rightarrow> bool" where
  \<comment> \<open>the cache look-up of every listed child of the folder is harmless\<close>
  "entries_usable fs folder =
     (\<forall>name\<in>set (children fs folder).
        case entry_item fs folder name of
          None \<Rightarrow> True
        | Some item \<Rightarrow> cache_usable fs (cache_key item))"

text \<open>The invariant of the grouping loop (used in the proofs).\<close>

definition group_ok :: "string \<Rightarrow> string list \<Rightarrow> string \<Rightarrow> episode \<Rightarrow> bool" where
  "group_ok folder_path names k e =
     (\<exists>name season episode title.
        name \<in> set names \<and> ep_path e = join folder_path name \<and>
        parse_filename name = Inr (season, episode, title) \<and>
        k = ''Season '' @ show_int season)"

definition groups_ok :: "string \<Rightarrow> string list \<Rightarrow> seasons \<Rightarrow> bool" where
  "groups_ok folder_path names seasons =
     (distinct (map fst seasons) \<and>
      list_all (\<lambda>(k, eps). eps \<noteq> [] \<and> list_all (group_ok folder_path names k) eps) seasons)"

text \<open>
  What the three substitutions of \<^verbatim>\<open>clean_filename\<close> do, as scans over the characters
  (used in the proofs). \<open>kill W\<close> deletes every maximal run of word characters that
  satisfies \<open>W\<close>; the state says whether the scan is outside a word, inside a word that
  stays, or inside one that is being deleted. \<open>no_hit W pw s\<close> says that no run of \<open>s\<close>
  satisfies \<open>W\<close>, \<open>pw\<close> telling whether a word character precedes \<open>s\<close>. \<open>squeeze\<close>
  replaces every run of whitespace by one blank; \<open>single_spaced\<close> says that every
  whitespace character is a blank with no whitespace before it.
\<close>

datatype scan_state = Outside | Keeping | Deleting

fun kill :: "(string \<Rightarrow> bool) \<Rightarrow> scan_state \<Rightarrow> string \<Rightarrow> string" where
  "kill W st [] = []"
| "kill W Outside (c # cs) =
     (if is_word c then
        (if W (takeWhile is_word (c # cs)) then kill W Deleting cs else c # kill W Keeping cs)
      else c # kill W Outside cs)"
| "kill W Keeping (c # cs) =
     (if is_word c then c # kill W Keeping cs else c # kill W Outside cs)"
| "kill W Deleting (c # cs) =
     (if is_word c then kill W Deleting cs else c # kill W Outside cs)"

fun no_hit :: "(string \<Rightarrow> bool) \<Rightarrow> bool \<Rightarrow> string \<Rightarrow> bool" where
  "no_hit W pw [] = True"
| "no_hit W pw (c # cs) =
     ((pw \<or> \<not> is_word c \<or> \<not> W (takeWhile is_word (c # cs))) \<and> no_hit W (is_word c) cs)"

fun squeeze :: "bool \<Rightarrow> string \<Rightarrow> string" where
  "squeeze sp [] = []"
| "squeeze sp (c # cs) =
     (if is_space c then (if sp then squeeze True cs else CHR '' '' # squeeze True cs)
      else c # squeeze False cs)"

fun single_spaced :: "bool \<Rightarrow> string \<Rightarrow> bool" where
  "single_spaced sp [] = True"
| "single_spaced sp (c # cs) =
     (if is_space c then c = CHR '' '' \<and> \<not> sp \<and> single_spaced True cs
      else single_spaced False cs)"

definition year_word :: "string \<Rightarrow> bool" where
  "year_word w =
     (case w of
        [a, b, c, d] \<Rightarrow>
          ((a = CHR ''1'' \<and> b = CHR ''9'') \<or> (a = CHR ''2'' \<and> b = CHR ''0'')) \<and>
          is_digit c \<and> is_digit d
      | _ \<Rightarrow> False)"

definition tag_words :: "string list" where
  "tag_words =
     [''720p'', ''1080p'', ''2160p'', ''480p'', ''HDR'', ''BluRay'', ''WEBRip'', ''x264'',
      ''H264'']"

definition tag_word :: "string \<Rightarrow> bool" where
  "tag_word w = (map lower w \<in> set (map (map lower) tag_words))"

definition ci_prefix :: "string \<Rightarrow> string \<Rightarrow> bool" where
  "ci_prefix w s = (length w \<le> length s \<and> map lower (take (length w) s) = map lower w)"

definition hit :: "(string \<Rightarrow> bool) \<Rightarrow> char option \<Rightarrow> string \<Rightarrow> bool" where
  "hit W prev s =
     (\<not> word_at prev \<and> s \<noteq> [] \<and> is_word (hd s) \<and> W (takeWhile is_word s))"


section \<open>Proofs\<close>

subsection \<open>The episode pattern\<close>

lemma rmatch_cls_seq:
  "rmatch (Seq (Cls q) R) (pr, s, g) =
     (case s of [] \<Rightarrow> [] | c # cs \<Rightarrow> if q c then rmatch R (Some c, cs, g) else [])"
  by (simp split: list.splits)

lemma takeWhile_index: "j < length (takeWhile p s) \<Longrightarrow> p (s ! j) \<and> j < length s"
proof -
  assume j: "j < length (takeWhile p s)"
  then have "takeWhile p s ! j \<in> set (takeWhile p s)" by simp
  then have "p (takeWhile p s ! j)" by (rule set_takeWhileD [THEN conjunct2])
  moreover have "takeWhile p s ! j = s ! j" using j by (rule takeWhile_nth)
  moreover have "length (takeWhile p s) \<le> length s" by (rule length_takeWhile_le)
  ultimately show ?thesis using j by simp
qed

lemma drop_below_takeWhile:
  "j < length (takeWhile p s) \<Longrightarrow> \<exists>c cs. drop j s = c # cs \<and> p c"
  using takeWhile_index [of j p s] by (auto simp: Cons_nth_drop_Suc [symmetric])

lemma rep_seq_general:
  assumes rej: "\<And>pr c cs g. p c \<Longrightarrow> rmatch R (pr, c # cs, g) = []"
    and lo: "lo \<le> n" and n: "n = length (takeWhile p s)"
  shows "rmatch (Seq (Rep p lo None) R) (pr, s, g) =
           rmatch R (if n = 0 then pr else Some (s ! (n - 1)), dropWhile p s, g)"
proof -
  let ?f = "\<lambda>j. (if j = 0 then pr else Some (s ! (j - 1)), drop j s, g)"
  have small: "rmatch R (?f j) = []" if jn: "j < n" for j
  proof -
    from jn n have "j < length (takeWhile p s)" by simp
    then have "\<exists>c cs. drop j s = c # cs \<and> p c"
      by (rule drop_below_takeWhile)
    then obtain c cs where "drop j s = c # cs" "p c" by blast
    then show ?thesis by (simp add: rej)
  qed
  have "rmatch (Seq (Rep p lo None) R) (pr, s, g) =
          concat (map (\<lambda>j. rmatch R (?f j)) (rev [lo..<Suc n]))"
    by (simp add: n Let_def comp_def del: upt_Suc)
  also have "\<dots> = rmatch R (?f n) @ concat (map (\<lambda>j. rmatch R (?f j)) (rev [lo..<n]))"
    using lo by simp
  also have "concat (map (\<lambda>j. rmatch R (?f j)) (rev [lo..<n])) = []"
    using small by simp
  finally show ?thesis by (simp add: n dropWhile_eq_drop)
qed

lemma grp_digits_seq:
  assumes rej: "\<And>pr c cs g. is_digit c \<Longrightarrow> rmatch R (pr, c # cs, g) = []"
  shows "rmatch (Seq (Grp n (Rep is_digit 1 (Some 2))) R) (pr, s, g) =
           (if takeWhile is_digit s \<noteq> [] \<and> length (takeWhile is_digit s) \<le> 2
            then rmatch R (Some (last (takeWhile is_digit s)), dropWhile is_digit s,
                           (n, takeWhile is_digit s) # g)
            else [])"
proof -
  let ?d = "takeWhile is_digit s"
  let ?k = "length ?d"
  have le: "?k \<le> length s" by (rule length_takeWhile_le)
  have dr: "dropWhile is_digit s = drop ?k s" by (rule dropWhile_eq_drop)
  have tk: "take ?k s = ?d" by (metis takeWhile_eq_take)
  have small: "rmatch R (pr', drop j s, g') = []" if jk: "j < ?k" for j pr' g'
  proof -
    from jk have "\<exists>c cs. drop j s = c # cs \<and> is_digit c"
      by (rule drop_below_takeWhile)
    then obtain c cs where "drop j s = c # cs" "is_digit c" by blast
    then show ?thesis by (simp add: rej)
  qed
  consider "?k = 0" | "?k = 1" | "?k = 2" | "?k \<ge> 3" by linarith
  then show ?thesis
  proof cases
    case 1
    then show ?thesis by (simp add: Let_def)
  next
    case 2
    then have "?d \<noteq> []" by auto
    moreover have "last ?d = s ! 0" using 2 takeWhile_nth [of 0 is_digit s]
      by (metis One_nat_def diff_Suc_1 last_conv_nth calculation lessI)
    ultimately show ?thesis using 2 le tk dr
      by (simp add: Let_def)
  next
    case 3
    then have ne: "?d \<noteq> []" by auto
    have l: "last ?d = s ! 1" using 3 takeWhile_nth [of 1 is_digit s] ne
      by (simp add: last_conv_nth)
    have "[Suc 0..<3] = [1, 2]" by (simp add: upt_rec)
    then show ?thesis using 3 le tk dr ne l small [of 1]
      by (simp add: Let_def numeral_2_eq_2 [symmetric] del: upt_Suc)
  next
    case 4
    then have ne: "?d \<noteq> []" by auto
    have "[Suc 0..<3] = [1, 2]" by (simp add: upt_rec)
    then show ?thesis using 4 le ne small [of 1] small [of 2]
      by (simp add: Let_def min_def del: upt_Suc)
  qed
qed

lemma rep_grp_first:
  "rmatch (Seq (Rep p 0 None) (Grp n (Rep q 0 None))) (pr, s, g) \<noteq> [] \<and>
   snd (snd (hd (rmatch (Seq (Rep p 0 None) (Grp n (Rep q 0 None))) (pr, s, g)))) =
     (n, takeWhile q (dropWhile p s)) # g"
proof -
  let ?k = "length (takeWhile p s)"
  let ?t = "dropWhile p s"
  let ?m = "length (takeWhile q ?t)"
  let ?f = "\<lambda>j. (if j = 0 then pr else Some (s ! (j - 1)), drop j s, g)"
  have m: "?m \<le> length ?t" by (rule length_takeWhile_le)
  have tk: "take ?m ?t = takeWhile q ?t" by (metis takeWhile_eq_take)
  have first: "rmatch (Rep p 0 None) (pr, s, g) = ?f ?k # map ?f (rev [0..<?k])"
    by (simp add: Let_def)
  have grp: "rmatch (Grp n (Rep q 0 None)) (pr', ?t, g) =
      (if ?m = 0 then pr' else Some (?t ! (?m - 1)), drop ?m ?t, (n, takeWhile q ?t) # g) #
      map (\<lambda>j. (if j = 0 then pr' else Some (?t ! (j - 1)), drop j ?t,
                 (n, take (length ?t - length (drop j ?t)) ?t) # g)) (rev [0..<?m])" for pr'
    using m tk by (simp add: Let_def comp_def)
  have dk: "drop ?k s = ?t" by (simp add: dropWhile_eq_drop)
  show ?thesis
    unfolding rmatch.simps(4) first
    by (simp only: list.map concat.simps dk grp) simp
qed

lemma re_match_re_episode:
  "re_match re_episode s =
     map_option (\<lambda>(d1, d2, t). [(3, t), (2, d2), (1, d1)]) (episode_fields s)"
proof -
  let ?tail = "Seq (Rep is_space 0 None) (Grp 3 (Rep (\<lambda>c. c \<noteq> CHR 0x0A) 0 None))"
  let ?hy = "Seq (Cls (\<lambda>c. c = CHR ''-'')) ?tail"
  let ?sp = "Seq (Rep is_space 0 None) ?hy"
  let ?e = "Seq (Cls (\<lambda>c. c = CHR ''E'' \<or> c = CHR ''e'')) (Seq (Grp 2 (Rep is_digit 1 (Some 2))) ?sp)"
  have sp: "rmatch ?sp (pr, t, g) =
      (case dropWhile is_space t of [] \<Rightarrow> []
       | h # r \<Rightarrow> if h = CHR ''-'' then rmatch ?tail (Some h, r, g) else [])" for pr t g
  proof -
    have "rmatch ?sp (pr, t, g) =
        rmatch ?hy (if length (takeWhile is_space t) = 0 then pr
                    else Some (t ! (length (takeWhile is_space t) - 1)), dropWhile is_space t, g)"
    proof (rule rep_seq_general)
      fix pr c cs g
      assume "is_space c"
      then have "c \<noteq> CHR ''-''" by (auto simp: is_space_def)
      then show "rmatch ?hy (pr, c # cs, g) = []"
        by (simp only: rmatch_cls_seq list.case) simp
    qed simp_all
    also have "\<dots> = (case dropWhile is_space t of [] \<Rightarrow> []
       | h # r \<Rightarrow> if h = CHR ''-'' then rmatch ?tail (Some h, r, g) else [])"
      by (rule rmatch_cls_seq)
    finally show ?thesis .
  qed
  have sp_rej: "rmatch ?sp (pr, c # cs, g) = []" if dc: "is_digit c" for pr c cs g
  proof -
    from dc have "\<not> is_space c" by (auto simp: is_digit_def is_space_def)
    moreover from dc have "c \<noteq> CHR ''-''" by (auto simp: is_digit_def)
    ultimately show ?thesis by (simp only: sp dropWhile.simps if_False list.case)
  qed
  have d2: "rmatch (Seq (Grp 2 (Rep is_digit 1 (Some 2))) ?sp) (pr, t, g) =
      (if takeWhile is_digit t \<noteq> [] \<and> length (takeWhile is_digit t) \<le> 2
       then rmatch ?sp (Some (last (takeWhile is_digit t)), dropWhile is_digit t,
                        (2, takeWhile is_digit t) # g) else [])" for pr t g
    by (rule grp_digits_seq) (rule sp_rej)
  have e_rej: "rmatch ?e (pr, c # cs, g) = []" if dc: "is_digit c" for pr c cs g
  proof -
    from dc have "c \<noteq> CHR ''E''" "c \<noteq> CHR ''e''" by (auto simp: is_digit_def)
    then show ?thesis by (simp only: rmatch_cls_seq list.case) simp
  qed
  have d1: "rmatch (Seq (Grp 1 (Rep is_digit 1 (Some 2))) ?e) (pr, t, g) =
      (if takeWhile is_digit t \<noteq> [] \<and> length (takeWhile is_digit t) \<le> 2
       then rmatch ?e (Some (last (takeWhile is_digit t)), dropWhile is_digit t,
                       (1, takeWhile is_digit t) # g) else [])" for pr t g
    by (rule grp_digits_seq) (rule e_rej)
  have e: "rmatch ?e (pr, t, g) =
      (case t of [] \<Rightarrow> [] | c # cs \<Rightarrow>
         if c = CHR ''E'' \<or> c = CHR ''e''
         then rmatch (Seq (Grp 2 (Rep is_digit 1 (Some 2))) ?sp) (Some c, cs, g) else [])" for pr t g
    by (rule rmatch_cls_seq)
  have top: "rmatch re_episode (None, s, []) =
      (case s of [] \<Rightarrow> [] | c # cs \<Rightarrow>
         if c = CHR ''S'' \<or> c = CHR ''s''
         then rmatch (Seq (Grp 1 (Rep is_digit 1 (Some 2))) ?e) (Some c, cs, []) else [])"
    unfolding re_episode_def by (rule rmatch_cls_seq)
  define get where "get = (\<lambda>L::conf list. case L of [] \<Rightarrow> None | (_, _, g') # _ \<Rightarrow> Some g')"
  have get_nil: "get [] = None" by (simp add: get_def)
  have get_tail: "get (rmatch ?tail (pr, r, g)) =
      Some ((3, takeWhile (\<lambda>c. c \<noteq> CHR 0x0A) (dropWhile is_space r)) # g)" for pr r g
    using rep_grp_first [of is_space 3 "\<lambda>c. c \<noteq> CHR 0x0A" pr r g]
    by (cases "rmatch ?tail (pr, r, g)") (auto simp: get_def)
  have "get (rmatch re_episode (None, s, [])) =
      map_option (\<lambda>(d1, d2, t). [(3, t), (2, d2), (1, d1)]) (episode_fields s)"
    unfolding top episode_fields_def d1 e d2 sp
    by (simp split: list.split add: get_nil get_tail del: rmatch.simps dropWhile_eq_Nil_conv)
  then show ?thesis by (simp add: re_match_def get_def)
qed

lemma not_digit_SE:
  "\<not> is_digit (CHR ''S'')" "\<not> is_digit (CHR ''s'')" "\<not> is_digit (CHR ''E'')"
  "\<not> is_digit (CHR ''e'')" "\<not> is_digit (CHR ''-'')" "\<not> is_space (CHR ''-'')"
  by (simp_all add: is_digit_def is_space_def)

lemma digit_not_space: "is_digit c \<Longrightarrow> \<not> is_space c"
  by (auto simp: is_digit_def is_space_def)

lemma takeWhile_run:
  "list_all p xs \<Longrightarrow> \<not> p y \<Longrightarrow> takeWhile p (xs @ y # ys) = xs"
  by (induction xs) auto

lemma dropWhile_run:
  "list_all p xs \<Longrightarrow> \<not> p y \<Longrightarrow> dropWhile p (xs @ y # ys) = y # ys"
  by (induction xs) auto

lemma episode_fields_complete:
  assumes "episode_stem s d1 d2 rest"
  shows "episode_fields s =
           Some (d1, d2, takeWhile (\<lambda>c. c \<noteq> CHR 0x0A) (dropWhile is_space rest))"
proof -
  from assms obtain c1 c2 w where
    s: "s = c1 # d1 @ c2 # d2 @ w @ CHR ''-'' # rest"
    and c1: "c1 = CHR ''S'' \<or> c1 = CHR ''s''" and c2: "c2 = CHR ''E'' \<or> c2 = CHR ''e''"
    and d1: "d1 \<noteq> []" "length d1 \<le> 2" "list_all is_digit d1"
    and d2: "d2 \<noteq> []" "length d2 \<le> 2" "list_all is_digit d2"
    and w: "list_all is_space w"
    unfolding episode_stem_def by blast
  have nc2: "\<not> is_digit c2" using c2 not_digit_SE by auto
  have t1: "takeWhile is_digit (d1 @ c2 # d2 @ w @ CHR ''-'' # rest) = d1"
    using d1(3) nc2 by (rule takeWhile_run)
  have r1: "dropWhile is_digit (d1 @ c2 # d2 @ w @ CHR ''-'' # rest) =
              c2 # d2 @ w @ CHR ''-'' # rest"
    using d1(3) nc2 by (rule dropWhile_run)
  have t2: "takeWhile is_digit (d2 @ w @ CHR ''-'' # rest) = d2"
  proof (cases w)
    case Nil
    then show ?thesis using takeWhile_run [OF d2(3) not_digit_SE(5)] by simp
  next
    case (Cons x xs)
    then have "\<not> is_digit x" using w digit_not_space by auto
    then show ?thesis using takeWhile_run [OF d2(3), of x] Cons by simp
  qed
  have r2: "dropWhile is_digit (d2 @ w @ CHR ''-'' # rest) = w @ CHR ''-'' # rest"
  proof (cases w)
    case Nil
    then show ?thesis using dropWhile_run [OF d2(3) not_digit_SE(5)] by simp
  next
    case (Cons x xs)
    then have "\<not> is_digit x" using w digit_not_space by auto
    then show ?thesis using dropWhile_run [OF d2(3), of x] Cons by simp
  qed
  have r3: "dropWhile is_space (w @ CHR ''-'' # rest) = CHR ''-'' # rest"
    using w not_digit_SE(6) by (rule dropWhile_run)
  show ?thesis
    using c1 c2 d1 d2 by (simp add: episode_fields_def s t1 r1 t2 r2 r3)
qed

lemma episode_fields_sound:
  assumes "episode_fields s = Some (d1, d2, t)"
  shows "\<exists>rest. episode_stem s d1 d2 rest"
proof -
  from assms obtain c cs where s: "s = c # cs"
    by (cases s) (auto simp: episode_fields_def)
  from assms s have c: "c = CHR ''S'' \<or> c = CHR ''s''"
    and k1: "takeWhile is_digit cs \<noteq> []" "length (takeWhile is_digit cs) \<le> 2"
    by (auto simp: episode_fields_def split: if_splits)
  from assms s c k1 obtain e es where r1: "dropWhile is_digit cs = e # es"
    by (cases "dropWhile is_digit cs") (auto simp: episode_fields_def)
  from assms s c k1 r1 have e: "e = CHR ''E'' \<or> e = CHR ''e''"
    and k2: "takeWhile is_digit es \<noteq> []" "length (takeWhile is_digit es) \<le> 2"
    by (auto simp: episode_fields_def split: if_splits)
  from assms s c k1 r1 e k2 obtain h r where
    r3: "dropWhile is_space (dropWhile is_digit es) = h # r"
    by (cases "dropWhile is_space (dropWhile is_digit es)") (auto simp: episode_fields_def)
  from assms s c k1 r1 e k2 r3 have h: "h = CHR ''-''"
    and d: "d1 = takeWhile is_digit cs" "d2 = takeWhile is_digit es"
    by (auto simp: episode_fields_def split: if_splits)
  let ?w = "takeWhile is_space (dropWhile is_digit es)"
  have "cs = d1 @ e # es" using d r1 by (metis takeWhile_dropWhile_id)
  moreover have "es = d2 @ dropWhile is_digit es" using d by simp
  moreover have "dropWhile is_digit es = ?w @ CHR ''-'' # r"
    using r3 h by (metis takeWhile_dropWhile_id)
  ultimately have "s = c # d1 @ e # d2 @ ?w @ CHR ''-'' # r"
    using s by simp
  moreover have "list_all is_digit d1" "list_all is_digit d2" "list_all is_space ?w"
    using d by (auto simp: list_all_iff dest: set_takeWhileD)
  ultimately have "episode_stem s d1 d2 r"
    unfolding episode_stem_def using c e k1 k2 d by blast
  then show ?thesis ..
qed

lemma strip_no_space: "list_all (\<lambda>c. \<not> is_space c) s \<Longrightarrow> strip s = s"
proof -
  assume a: "list_all (\<lambda>c. \<not> is_space c) s"
  have "dropWhile is_space s = s" using a by (cases s) auto
  moreover have "dropWhile is_space (rev s) = rev s" using a by (cases "rev s") (auto simp: list_all_iff)
  ultimately show ?thesis by (simp add: strip_def)
qed

lemma no_double_underscore:
  "list_all is_digit b \<Longrightarrow> \<not> list_ex (\<lambda>(x, y). x = CHR ''_'' \<and> y = CHR ''_'') (zip b (tl b))"
proof -
  assume a: "list_all is_digit b"
  have "\<not> is_digit (CHR ''_'')" by (simp add: is_digit_def)
  then have "\<forall>x\<in>set b. x \<noteq> CHR ''_''" using a by (auto simp: list_all_iff)
  then show ?thesis by (auto simp: list_ex_iff dest: set_zip_leftD)
qed

lemma digit_not_int_space: "is_digit c \<Longrightarrow> \<not> is_int_space c"
  by (auto simp: is_digit_def is_int_space_def)

lemma py_int_str_digits:
  assumes "ds \<noteq> []" "list_all is_digit ds" "int (length ds) \<le> int_max_str_digits"
  shows "py_int_str ds = Inr (int (digits_val ds))"
proof -
  have hd: "is_digit (hd ds)" "is_digit (last ds)"
    using assms by (auto simp: list_all_iff)
  have "dropWhile is_int_space ds = ds"
    using assms(1) hd(1) digit_not_int_space by (cases ds) auto
  moreover have "dropWhile is_int_space (rev ds) = rev ds"
    using assms(1) hd(2) digit_not_int_space by (cases "rev ds") (auto simp: last_rev [symmetric] hd_rev)
  ultimately have st: "rev (dropWhile is_int_space (rev (dropWhile is_int_space ds))) = ds"
    by simp
  from hd have sg: "hd ds \<noteq> CHR ''-''" "hd ds \<noteq> CHR ''+''"
    by (auto simp: is_digit_def)
  have ok: "int_literal_ok ds"
    unfolding int_literal_ok_def
    using assms hd no_double_underscore [OF assms(2)]
    by (auto simp: list_all_iff)
  have "filter is_digit ds = ds" using assms(2) by (auto simp: list_all_iff)
  then show ?thesis using assms(1,3) sg ok by (simp add: py_int_str_def st Let_def)
qed


subsection \<open>Title Cleaner: the substitutions as scans\<close>

lemma space_not_word: "is_space c \<Longrightarrow> \<not> is_word c"
  by (auto simp: is_space_def is_word_def is_alnum_def)

lemma blank_is_space: "is_space (CHR '' '')"
  by (simp add: is_space_def)

lemma blank_not_word: "\<not> is_word (CHR '' '')"
  by (simp add: space_not_word blank_is_space)

subsection \<open>Deleting words\<close>

lemma kill_nonword_start:
  "\<not> is_word c \<Longrightarrow> kill W st (c # cs) = c # kill W Outside cs"
  by (cases st) simp_all

lemma kill_Deleting: "kill W Deleting s = kill W Outside (dropWhile is_word s)"
  by (induction s) simp_all

lemma kill_Keeping_Outside:
  "s = [] \<or> \<not> is_word (hd s) \<Longrightarrow> kill W Keeping s = kill W Outside s"
  by (cases s) auto

lemma takeWhile_kill_Keeping:
  "takeWhile is_word (kill W Keeping s) = takeWhile is_word s"
  by (induction s) auto

lemma set_kill: "set (kill W st s) \<subseteq> set s"
  by (induction W st s rule: kill.induct) auto

lemma no_hit_fixpoint:
  "no_hit W pw s \<Longrightarrow> kill W (if pw then Keeping else Outside) s = s"
proof (induction s arbitrary: pw)
  case Nil
  then show ?case by simp
next
  case (Cons c cs)
  then have ih: "kill W (if is_word c then Keeping else Outside) cs = cs" by simp
  from Cons.prems have h: "pw \<or> \<not> is_word c \<or> \<not> W (takeWhile is_word (c # cs))" by simp
  show ?case
  proof (cases pw)
    case True
    then show ?thesis using ih by (cases "is_word c") simp_all
  next
    case False
    then show ?thesis using ih h by (cases "is_word c") auto
  qed
qed

lemma no_hit_mono:
  "no_hit W pw s \<Longrightarrow> (\<And>w. V w \<Longrightarrow> W w) \<Longrightarrow> no_hit V pw s"
  by (induction s arbitrary: pw) auto

lemma no_hit_never: "no_hit (\<lambda>w. False) pw s"
  by (induction s arbitrary: pw) auto

lemma no_hit_nonword_start:
  "s = [] \<or> \<not> is_word (hd s) \<Longrightarrow> no_hit W pw s = no_hit W pw' s"
  by (cases s) auto

text \<open>The state of the scan fixes whether a word character precedes the output.\<close>

lemma no_hit_kill:
  assumes "no_hit (\<lambda>w. V w \<and> \<not> W w) (st \<noteq> Outside) s"
  shows "no_hit V (st = Keeping) (kill W st s)"
  using assms
proof (induction s arbitrary: st)
  case Nil
  then show ?case by simp
next
  case (Cons c cs)
  show ?case
  proof (cases "is_word c")
    case False
    from Cons.prems False have "no_hit (\<lambda>w. V w \<and> \<not> W w) (Outside \<noteq> Outside) cs" by simp
    then have "no_hit V (Outside = Keeping) (kill W Outside cs)" by (rule Cons.IH)
    then show ?thesis using False by (simp add: kill_nonword_start)
  next
    case True
    note w = True
    show ?thesis
    proof (cases st)
      case Keeping
      from Cons.prems w have "no_hit (\<lambda>w. V w \<and> \<not> W w) (Keeping \<noteq> Outside) cs" by simp
      then have "no_hit V (Keeping = Keeping) (kill W Keeping cs)" by (rule Cons.IH)
      then show ?thesis using w Keeping by simp
    next
      case Deleting
      from Cons.prems w have "no_hit (\<lambda>w. V w \<and> \<not> W w) (Deleting \<noteq> Outside) cs" by simp
      then have "no_hit V (Deleting = Keeping) (kill W Deleting cs)" by (rule Cons.IH)
      then show ?thesis using w Deleting by simp
    next
      case Outside
      show ?thesis
      proof (cases "W (takeWhile is_word (c # cs))")
        case True
        from Cons.prems w have "no_hit (\<lambda>w. V w \<and> \<not> W w) (Deleting \<noteq> Outside) cs" by simp
        then have "no_hit V (Deleting = Keeping) (kill W Deleting cs)" by (rule Cons.IH)
        then show ?thesis using w Outside True by simp
      next
        case False
        from Cons.prems w have "no_hit (\<lambda>w. V w \<and> \<not> W w) (Keeping \<noteq> Outside) cs" by simp
        then have ih: "no_hit V (Keeping = Keeping) (kill W Keeping cs)" by (rule Cons.IH)
        from Cons.prems Outside w False have "\<not> V (takeWhile is_word (c # cs))" by simp
        then have "\<not> V (takeWhile is_word (c # kill W Keeping cs))"
          using w by (simp add: takeWhile_kill_Keeping)
        then show ?thesis using w Outside False ih by simp
      qed
    qed
  qed
qed

lemma no_hit_kill_self: "no_hit W False (kill W Outside s)"
  using no_hit_kill [of W W Outside s] by (simp add: no_hit_never)

lemma no_hit_kill_other: "no_hit V False s \<Longrightarrow> no_hit V False (kill W Outside s)"
proof -
  assume "no_hit V False s"
  then have "no_hit (\<lambda>w. V w \<and> \<not> W w) False s" by (rule no_hit_mono) simp
  then show ?thesis using no_hit_kill [of V W Outside s] by simp
qed

subsection \<open>Squeezing whitespace\<close>

lemma squeeze_True: "squeeze True s = squeeze False (dropWhile is_space s)"
  by (induction s) auto

lemma set_squeeze: "set (squeeze sp s) \<subseteq> insert (CHR '' '') (set s)"
  by (induction s arbitrary: sp) auto

lemma takeWhile_squeeze: "takeWhile is_word (squeeze False s) = takeWhile is_word s"
  by (induction s) (auto simp: space_not_word blank_not_word)

lemma no_hit_squeeze:
  "no_hit W pw s \<Longrightarrow> (sp \<longrightarrow> \<not> pw) \<Longrightarrow> no_hit W pw (squeeze sp s)"
proof (induction s arbitrary: pw sp)
  case Nil
  then show ?case by simp
next
  case (Cons c cs)
  show ?case
  proof (cases "is_space c")
    case True
    then have nw: "\<not> is_word c" by (rule space_not_word)
    with Cons.prems have "no_hit W False cs" by simp
    then have "no_hit W False (squeeze True cs)" by (rule Cons.IH) simp
    then show ?thesis using True Cons.prems(2) by (auto simp: blank_not_word)
  next
    case False
    from Cons.prems have "no_hit W (is_word c) cs" by simp
    then have ih: "no_hit W (is_word c) (squeeze False cs)" by (rule Cons.IH) simp
    from Cons.prems have "pw \<or> \<not> is_word c \<or> \<not> W (takeWhile is_word (c # cs))" by simp
    then have "pw \<or> \<not> is_word c \<or> \<not> W (takeWhile is_word (c # squeeze False cs))"
      by (auto simp: takeWhile_squeeze)
    then show ?thesis using False ih by simp
  qed
qed

lemma single_spaced_squeeze: "single_spaced sp (squeeze sp s)"
  by (induction s arbitrary: sp) (auto simp: blank_is_space)

lemma squeeze_fixpoint: "single_spaced sp s \<Longrightarrow> squeeze sp s = s"
  by (induction s arbitrary: sp) (auto split: if_splits)

subsection \<open>Trimming\<close>

lemma takeWhile_append_nonword:
  "list_all is_space t \<Longrightarrow> takeWhile is_word (a @ t) = takeWhile is_word a"
proof (induction a)
  case Nil
  then show ?case by (cases t) (auto simp: space_not_word)
next
  case (Cons c a)
  then show ?case by simp
qed

lemma no_hit_drop_leading: "no_hit W False s \<Longrightarrow> no_hit W False (dropWhile is_space s)"
  by (induction s) (auto simp: space_not_word)

lemma no_hit_drop_trailing:
  "no_hit W pw (a @ t) \<Longrightarrow> list_all is_space t \<Longrightarrow> no_hit W pw a"
proof (induction a arbitrary: pw)
  case Nil
  then show ?case by simp
next
  case (Cons c a)
  from Cons.prems have "no_hit W (is_word c) (a @ t)" by simp
  then have "no_hit W (is_word c) a" using Cons.prems(2) by (rule Cons.IH)
  moreover have "takeWhile is_word (c # a @ t) = takeWhile is_word (c # a)"
    using takeWhile_append_nonword [OF Cons.prems(2), of "c # a"] by simp
  ultimately show ?case using Cons.prems(1) by auto
qed

lemma single_spaced_drop_leading:
  "single_spaced sp s \<Longrightarrow> single_spaced False (dropWhile is_space s)"
  by (induction s arbitrary: sp) (auto split: if_splits)

lemma single_spaced_drop_trailing: "single_spaced sp (a @ t) \<Longrightarrow> single_spaced sp a"
  by (induction a arbitrary: sp) (auto split: if_splits)

lemma rstrip_decompose:
  "s = rev (dropWhile is_space (rev s)) @ rev (takeWhile is_space (rev s))"
proof -
  have "rev s = takeWhile is_space (rev s) @ dropWhile is_space (rev s)" by simp
  then have "rev (rev s) = rev (takeWhile is_space (rev s) @ dropWhile is_space (rev s))"
    by (rule arg_cong)
  then show ?thesis by (simp only: rev_rev_ident rev_append)
qed

lemma rstrip_spaces: "list_all is_space (rev (takeWhile is_space (rev s)))"
  by (auto simp: list_all_iff dest: set_takeWhileD)

lemma no_hit_strip: "no_hit W False s \<Longrightarrow> no_hit W False (strip s)"
proof -
  assume "no_hit W False s"
  then have a: "no_hit W False (dropWhile is_space s)" by (rule no_hit_drop_leading)
  let ?y = "dropWhile is_space s"
  from a have "no_hit W False (rev (dropWhile is_space (rev ?y)) @ rev (takeWhile is_space (rev ?y)))"
    using rstrip_decompose [of ?y] by simp
  then have "no_hit W False (rev (dropWhile is_space (rev ?y)))"
    using rstrip_spaces by (rule no_hit_drop_trailing)
  then show ?thesis by (simp add: strip_def)
qed

lemma single_spaced_strip: "single_spaced sp s \<Longrightarrow> single_spaced False (strip s)"
proof -
  assume "single_spaced sp s"
  then have a: "single_spaced False (dropWhile is_space s)" by (rule single_spaced_drop_leading)
  let ?y = "dropWhile is_space s"
  from a have "single_spaced False
      (rev (dropWhile is_space (rev ?y)) @ rev (takeWhile is_space (rev ?y)))"
    using rstrip_decompose [of ?y] by simp
  then have "single_spaced False (rev (dropWhile is_space (rev ?y)))"
    by (rule single_spaced_drop_trailing)
  then show ?thesis by (simp add: strip_def)
qed

lemma set_strip: "set (strip s) \<subseteq> set s"
proof -
  have "set (dropWhile is_space (rev (dropWhile is_space s))) \<subseteq> set (rev (dropWhile is_space s))"
    by (auto dest: set_dropWhileD)
  also have "\<dots> \<subseteq> set s" by (auto dest: set_dropWhileD)
  finally show ?thesis by (simp add: strip_def)
qed

lemma dropWhile_snoc_keep:
  "\<not> P c \<Longrightarrow> \<exists>z. dropWhile P (xs @ [c]) = z @ [c]"
  by (induction xs) auto

lemma strip_idem: "strip (strip s) = strip s"
proof -
  let ?y = "dropWhile is_space s"
  let ?x = "rev (dropWhile is_space (rev ?y))"
  have x: "strip s = ?x" by (simp add: strip_def)
  have lead: "dropWhile is_space ?x = ?x"
  proof (cases ?y)
    case Nil
    then show ?thesis by (simp only: Nil) simp
  next
    case (Cons c y')
    then have nc: "\<not> is_space c" by (metis hd_dropWhile list.sel(1) list.distinct(1))
    have "rev ?y = rev y' @ [c]" using Cons by simp
    with dropWhile_snoc_keep [of is_space c "rev y'", OF nc] obtain z where
      "dropWhile is_space (rev ?y) = z @ [c]" by auto
    then have "?x = c # rev z" by simp
    then show ?thesis using nc by simp
  qed
  have "strip ?x = rev (dropWhile is_space (rev ?x))"
    unfolding strip_def lead ..
  also have "\<dots> = rev (dropWhile is_space (dropWhile is_space (rev ?y)))" by simp
  also have "\<dots> = ?x" by (simp only: dropWhile_idem)
  finally show ?thesis by (simp only: x)
qed

lemma sub_step_nomatch:
  "rmatch r (prev, s, []) = [] \<Longrightarrow>
   re_sub_from r repl adv prev s =
     (case s of [] \<Rightarrow> [] | c # cs \<Rightarrow> c # re_sub_from r repl False (Some c) cs)"
  by (subst re_sub_from.simps) simp

lemma sub_step_match:
  "rmatch r (prev, s, []) = (p, s', g) # rest \<Longrightarrow> length s' < length s \<Longrightarrow>
   re_sub_from r repl adv prev s =
     repl @ re_sub_from r repl False (Some (s ! (length s - length s' - 1)))
              (drop (length s - length s') s)"
  by (subst re_sub_from.simps) (simp add: Let_def)

lemma length_dropWhile_takeWhile:
  "length s - length (dropWhile P s) = length (takeWhile P s)"
proof -
  have "length (takeWhile P s) + length (dropWhile P s) = length s"
    by (metis length_append takeWhile_dropWhile_id)
  then show ?thesis by linarith
qed

lemma kill_any_state:
  "s = [] \<or> \<not> is_word (hd s) \<Longrightarrow> kill W st s = kill W Outside s"
  by (cases s) (auto simp: kill_nonword_start)

lemma dropWhile_starts_other: "dropWhile P s = [] \<or> \<not> P (hd (dropWhile P s))"
  by (metis hd_dropWhile)

lemma sub_is_kill:
  assumes wk: "\<And>prev s. S s \<Longrightarrow>
        (case rmatch r (prev, s, []) of
           [] \<Rightarrow> \<not> hit W prev s
         | (p, s', g) # _ \<Rightarrow> hit W prev s \<and> s' = dropWhile is_word s)"
    and closed: "\<And>s n. S s \<Longrightarrow> S (drop n s)"
    and s: "S s"
  shows "re_sub_from r [] adv prev s = kill W (if word_at prev then Keeping else Outside) s"
  using s
proof (induction s arbitrary: adv prev rule: length_induct)
  case (1 s)
  note ih = 1(1) [rule_format] and ss = 1(2)
  show ?case
  proof (cases "rmatch r (prev, s, [])")
    case Nil
    with wk [OF ss, of prev] have nh: "\<not> hit W prev s" by simp
    show ?thesis
    proof (cases s)
      case Nil
      then show ?thesis using \<open>rmatch r (prev, s, []) = []\<close> by (simp add: sub_step_nomatch)
    next
      case (Cons c cs)
      have "S cs" using closed [OF ss, of 1] Cons by simp
      then have t: "re_sub_from r [] False (Some c) cs =
          kill W (if is_word c then Keeping else Outside) cs"
        using ih [of cs False "Some c"] Cons by (simp add: word_at_def)
      have "re_sub_from r [] adv prev s = c # kill W (if is_word c then Keeping else Outside) cs"
        using \<open>rmatch r (prev, s, []) = []\<close> Cons t by (simp add: sub_step_nomatch)
      moreover have "kill W (if word_at prev then Keeping else Outside) (c # cs) =
          c # kill W (if is_word c then Keeping else Outside) cs"
        using nh Cons by (auto simp: hit_def)
      ultimately show ?thesis using Cons by simp
    qed
  next
    case (Cons x rest)
    obtain p s' g where x: "x = (p, s', g)" by (cases x)
    with wk [OF ss, of prev] Cons have h: "hit W prev s" and s': "s' = dropWhile is_word s"
      by simp_all
    from h obtain c cs where sc: "s = c # cs" and wc: "is_word c"
      and np: "\<not> word_at prev" and ww: "W (takeWhile is_word (c # cs))"
      by (cases s) (auto simp: hit_def)
    have shorter: "length s' < length s" using s' sc wc
      by (simp add: le_imp_less_Suc length_dropWhile_le)
    let ?k = "length s - length s'"
    have k: "?k = length (takeWhile is_word s)"
      unfolding s' by (rule length_dropWhile_takeWhile)
    have dk: "drop ?k s = s'" by (simp only: k) (simp add: s' dropWhile_eq_drop)
    have "S s'" using closed [OF ss, of ?k] dk by simp
    then have t: "re_sub_from r [] False (Some (s ! (?k - 1))) s' =
        kill W (if word_at (Some (s ! (?k - 1))) then Keeping else Outside) s'"
      using ih [of s' False] shorter by simp
    have "kill W (if word_at (Some (s ! (?k - 1))) then Keeping else Outside) s' =
        kill W Outside s'"
      by (rule kill_any_state) (simp only: s' dropWhile_starts_other)
    with t have "re_sub_from r [] adv prev s = kill W Outside s'"
      using sub_step_match [OF Cons [unfolded x] shorter, of "[]" adv] dk by simp
    moreover have "kill W (if word_at prev then Keeping else Outside) s = kill W Outside s'"
      using np sc wc ww by (simp add: kill_Deleting s')
    ultimately show ?thesis by simp
  qed
qed

lemma rmatch_re_spaces:
  "rmatch re_spaces (prev, s, []) =
     (case s of
        [] \<Rightarrow> []
      | c # cs \<Rightarrow>
          if is_space c
          then (Some (s ! (length (takeWhile is_space s) - 1)), dropWhile is_space s, []) #
               map (\<lambda>j. (if j = 0 then prev else Some (s ! (j - 1)), drop j s, []))
                 (rev [1..<length (takeWhile is_space s)])
          else [])"
proof (cases s)
  case Nil
  then show ?thesis by (simp add: re_spaces_def)
next
  case (Cons c cs)
  show ?thesis
  proof (cases "is_space c")
    case False
    then show ?thesis using Cons by (simp add: re_spaces_def)
  next
    case True
    let ?k = "length (takeWhile is_space s)"
    have k: "1 \<le> ?k" using True Cons by simp
    then have "rev [1..<Suc ?k] = ?k # rev [1..<?k]" by simp
    then show ?thesis using True Cons k
      by (simp add: re_spaces_def Let_def dropWhile_eq_drop del: upt_Suc)
  qed
qed

lemma sub_spaces_is_squeeze:
  "re_sub_from re_spaces '' '' adv prev s = squeeze False s"
proof (induction s arbitrary: adv prev rule: length_induct)
  case (1 s)
  note ih = 1(1) [rule_format]
  show ?case
  proof (cases s)
    case Nil
    then show ?thesis by (simp add: sub_step_nomatch rmatch_re_spaces)
  next
    case (Cons c cs)
    show ?thesis
    proof (cases "is_space c")
      case False
      then have "rmatch re_spaces (prev, s, []) = []" using Cons by (simp add: rmatch_re_spaces)
      then show ?thesis using Cons False ih [of cs False "Some c"]
        by (simp add: sub_step_nomatch)
    next
      case True
      let ?s' = "dropWhile is_space s"
      let ?k = "length s - length ?s'"
      obtain p rest where m: "rmatch re_spaces (prev, s, []) = (p, ?s', []) # rest"
        using True Cons by (simp add: rmatch_re_spaces)
      have shorter: "length ?s' < length s" using True Cons
        by (simp add: le_imp_less_Suc length_dropWhile_le)
      have dk: "drop ?k s = ?s'"
        by (simp only: length_dropWhile_takeWhile) (simp only: dropWhile_eq_drop)
      have "re_sub_from re_spaces '' '' adv prev s =
          '' '' @ re_sub_from re_spaces '' '' False (Some (s ! (?k - 1))) ?s'"
        using sub_step_match [OF m shorter, of "'' ''" adv] dk by simp
      also have "\<dots> = CHR '' '' # squeeze False ?s'"
        using ih [of ?s' False] shorter by simp
      also have "\<dots> = squeeze False s"
        using True Cons by (simp add: squeeze_True)
      finally show ?thesis .
    qed
  qed
qed

lemma digit_is_word: "is_digit c \<Longrightarrow> is_word c"
  by (auto simp: is_digit_def is_word_def is_alnum_def)

lemma is_word_lower: "is_word (lower c) = is_word c"
  by (auto simp: is_word_def is_alnum_def lower_def char_of_eq_iff take_bit_eq_mod)

lemma lower_dot: "lower c = lower (CHR ''.'') \<longleftrightarrow> c = CHR ''.''"
  by (auto simp: lower_def char_of_eq_iff take_bit_eq_mod)


lemma rmatch_lits_ci:
  "rmatch (lits_ci w) (prev, s, g) =
     (if ci_prefix w s
      then [(if w = [] then prev else Some (s ! (length w - 1)), drop (length w) s, g)]
      else [])"
proof (induction w arbitrary: prev s)
  case Nil
  then show ?case by (simp add: ci_prefix_def)
next
  case (Cons x w)
  show ?case
  proof (cases s)
    case Nil
    then show ?thesis by (simp add: ci_prefix_def)
  next
    case (Cons c cs)
    have cp: "ci_prefix (x # w) (c # cs) \<longleftrightarrow> lower c = lower x \<and> ci_prefix w cs"
      by (auto simp: ci_prefix_def)
    have step: "rmatch (lits_ci (x # w)) (prev, c # cs, g) =
        (if lower c = lower x then rmatch (lits_ci w) (Some c, cs, g) else [])"
      by simp
    show ?thesis
      unfolding Cons step Cons.IH cp
      by (cases w) simp_all
  qed
qed

lemma rmatch_lits:
  "rmatch (lits w) (prev, s, g) =
     (if length w \<le> length s \<and> take (length w) s = w
      then [(if w = [] then prev else Some (s ! (length w - 1)), drop (length w) s, g)]
      else [])"
proof (induction w arbitrary: prev s)
  case Nil
  then show ?case by simp
next
  case (Cons x w)
  show ?case
  proof (cases s)
    case Nil
    then show ?thesis by simp
  next
    case (Cons c cs)
    have step: "rmatch (lits (x # w)) (prev, c # cs, g) =
        (if c = x then rmatch (lits w) (Some c, cs, g) else [])"
      by simp
    show ?thesis
      unfolding Cons step Cons.IH
      by (cases w) auto
  qed
qed

lemma word_run_take:
  assumes "n \<le> length s" "list_all is_word (take n s)" "\<not> word_at (peek (drop n s))"
  shows "takeWhile is_word s = take n s \<and> dropWhile is_word s = drop n s"
proof -
  have s: "s = take n s @ drop n s" by simp
  have tw: "takeWhile is_word (take n s @ drop n s) = take n s"
  proof (cases "drop n s")
    case Nil
    then show ?thesis using assms(2) by (simp add: list_all_iff)
  next
    case (Cons y ys)
    then have "\<not> is_word y" using assms(3) by (simp add: peek_def word_at_def)
    then show ?thesis using assms(2) Cons by (simp add: takeWhile_run)
  qed
  have dw: "dropWhile is_word (take n s @ drop n s) = drop n s"
  proof (cases "drop n s")
    case Nil
    then show ?thesis using assms(2) by (simp add: list_all_iff)
  next
    case (Cons y ys)
    then have "\<not> is_word y" using assms(3) by (simp add: peek_def word_at_def)
    then show ?thesis using assms(2) Cons by (simp add: dropWhile_run)
  qed
  from tw dw show ?thesis by simp
qed

lemma word_run_after: "\<not> word_at (peek (dropWhile is_word s))"
proof (cases "dropWhile is_word s")
  case Nil
  show ?thesis by (simp only: Nil peek_def word_at_def list.case option.case) simp
next
  case (Cons y ys)
  then have "dropWhile is_word s \<noteq> []" by simp
  then have "\<not> is_word (hd (dropWhile is_word s))" by (rule hd_dropWhile)
  then have "\<not> is_word y" by (simp add: Cons)
  then show ?thesis by (simp add: Cons peek_def word_at_def)
qed

lemma rmatch_Bnd_mem:
  "x \<in> set (rmatch Bnd y) \<longleftrightarrow> x = y \<and> word_at (fst y) \<noteq> word_at (peek (fst (snd y)))"
  by (cases y) auto

lemma rmatch_Bnd_seq:
  "rmatch (Seq Bnd R) (prev, s, g) =
     (if word_at prev \<noteq> word_at (peek s) then rmatch R (prev, s, g) else [])"
  by simp

text \<open>
  A pattern \<^verbatim>\<open>\bB\b\<close> whose body \<open>B\<close> matches exactly the non-empty prefixes that
  satisfy \<open>Q\<close>, all of word characters, matches exactly the maximal runs of word
  characters that satisfy \<open>Q\<close>.
\<close>

lemma bounded_word_pattern:
  assumes sound: "\<And>x. x \<in> set (rmatch B (prev, s, [])) \<Longrightarrow>
        \<exists>n. 0 < n \<and> n \<le> length s \<and> Q (take n s) \<and>
            fst x = Some (s ! (n - 1)) \<and> fst (snd x) = drop n s"
    and complete: "\<And>n. 0 < n \<Longrightarrow> n \<le> length s \<Longrightarrow> Q (take n s) \<Longrightarrow>
        \<exists>x\<in>set (rmatch B (prev, s, [])). fst x = Some (s ! (n - 1)) \<and> fst (snd x) = drop n s"
    and words: "\<And>w. Q w \<Longrightarrow> list_all is_word w"
  shows "case rmatch (Seq Bnd (Seq B Bnd)) (prev, s, []) of
           [] \<Rightarrow> \<not> hit Q prev s
         | (p, s', g) # _ \<Rightarrow> hit Q prev s \<and> s' = dropWhile is_word s"
proof -
  let ?res = "rmatch (Seq Bnd (Seq B Bnd)) (prev, s, [])"
  have mem: "x \<in> set ?res \<longleftrightarrow>
      word_at prev \<noteq> word_at (peek s) \<and> x \<in> set (rmatch B (prev, s, [])) \<and>
      word_at (fst x) \<noteq> word_at (peek (fst (snd x)))" for x
  proof -
    have "x \<in> set (rmatch (Seq B Bnd) (prev, s, [])) \<longleftrightarrow>
        x \<in> set (rmatch B (prev, s, [])) \<and>
        word_at (fst x) \<noteq> word_at (peek (fst (snd x)))"
      by (auto simp: rmatch_Bnd_mem simp del: rmatch.simps(6))
    then show ?thesis by (simp only: rmatch_Bnd_seq) simp
  qed
  have snd: "hit Q prev s \<and> fst (snd x) = dropWhile is_word s" if "x \<in> set ?res" for x
  proof -
    from that mem have b0: "word_at prev \<noteq> word_at (peek s)"
      and xb: "x \<in> set (rmatch B (prev, s, []))"
      and b1: "word_at (fst x) \<noteq> word_at (peek (fst (snd x)))" by auto
    from sound [OF xb] obtain n where n: "0 < n" "n \<le> length s" and q: "Q (take n s)"
      and fx: "fst x = Some (s ! (n - 1))" and sx: "fst (snd x) = drop n s" by blast
    from words [OF q] have aw: "list_all is_word (take n s)" .
    have "s ! (n - 1) \<in> set (take n s)"
      using n by (metis diff_less in_set_conv_nth length_take min.absorb2 nth_take zero_less_one)
    then have "is_word (s ! (n - 1))" using aw by (simp add: list_all_iff)
    then have "\<not> word_at (peek (drop n s))" using b1 fx sx by (simp add: word_at_def)
    from word_run_take [OF n(2) aw this]
    have tw: "takeWhile is_word s = take n s" and dw: "dropWhile is_word s = drop n s" by simp_all
    from n obtain c cs where sc: "s = c # cs" by (cases s) auto
    then have "c \<in> set (take n s)" using n by (cases n) auto
    then have wc: "is_word c" using aw by (simp add: list_all_iff)
    then have "\<not> word_at prev" using b0 sc by (simp add: peek_def word_at_def)
    then show ?thesis using sc wc q tw dw sx by (simp add: hit_def)
  qed
  have cmp: "?res \<noteq> []" if h: "hit Q prev s"
  proof -
    let ?n = "length (takeWhile is_word s)"
    from h obtain c cs where sc: "s = c # cs" and wc: "is_word c" and np: "\<not> word_at prev"
      and q: "Q (takeWhile is_word s)"
      by (cases s) (auto simp: hit_def)
    have n0: "0 < ?n" using sc wc by simp
    have nl: "?n \<le> length s" by (rule length_takeWhile_le)
    have tk: "take ?n s = takeWhile is_word s" by (metis takeWhile_eq_take)
    from complete [OF n0 nl] q tk obtain x where xb: "x \<in> set (rmatch B (prev, s, []))"
      and fx: "fst x = Some (s ! (?n - 1))" and sx: "fst (snd x) = drop ?n s" by auto
    have "is_word (s ! (?n - 1))"
      using takeWhile_index [of "?n - 1" is_word s] n0 by simp
    moreover have "\<not> word_at (peek (drop ?n s))"
      using word_run_after [of s] by (simp add: dropWhile_eq_drop)
    ultimately have "word_at (fst x) \<noteq> word_at (peek (fst (snd x)))"
      using fx sx by (simp add: word_at_def)
    moreover have "word_at prev \<noteq> word_at (peek s)"
      using np sc wc by (simp add: peek_def word_at_def)
    ultimately have "x \<in> set ?res" using xb mem by blast
    then show ?thesis by (auto simp del: rmatch.simps)
  qed
  show ?thesis
  proof (cases ?res)
    case Nil
    then show ?thesis using cmp by (auto simp del: rmatch.simps)
  next
    case (Cons x rest)
    then have "x \<in> set ?res" by (simp del: rmatch.simps)
    from snd [OF this] show ?thesis using Cons by (cases x) (simp del: rmatch.simps)
  qed
qed

lemma concat_map_flatten:
  "concat (map f (concat xss)) = concat (map (\<lambda>xs. concat (map f xs)) xss)"
  by (induction xss) auto

lemma seq_assoc: "rmatch (Seq a (Seq b c)) st = rmatch (Seq (Seq a b) c) st"
proof -
  have "rmatch (Seq b c) = (\<lambda>x. concat (map (rmatch c) (rmatch b x)))"
    by (rule ext) simp
  then show ?thesis by (simp add: concat_map_flatten comp_def)
qed

lemma rmatch_two_digits:
  "rmatch (Rep is_digit 2 (Some 2)) (p, r, g) =
     (if 2 \<le> length r \<and> is_digit (r ! 0) \<and> is_digit (r ! 1)
      then [(Some (r ! 1), drop 2 r, g)] else [])"
proof (cases r)
  case Nil
  then show ?thesis by simp
next
  case (Cons a r')
  note r = Cons
  show ?thesis
  proof (cases r')
    case Nil
    then show ?thesis using r by (simp add: Let_def)
  next
    case (Cons b r'')
    have u: "[2..<3] = [2::nat]" by (simp add: upt_rec)
    show ?thesis using r Cons u
      by (simp add: Let_def min_def numeral_2_eq_2 [symmetric] del: upt_Suc)
  qed
qed

lemma length_ge_4: "4 \<le> length s \<Longrightarrow> \<exists>a b c d t. s = a # b # c # d # t"
proof -
  assume l: "4 \<le> length s"
  then obtain a s1 where 1: "s = a # s1" by (cases s) auto
  with l obtain b s2 where 2: "s1 = b # s2" by (cases s1) auto
  with l 1 obtain c s3 where 3: "s2 = c # s3" by (cases s2) auto
  with l 1 2 obtain d t where 4: "s3 = d # t" by (cases s3) auto
  from 1 2 3 4 show ?thesis by blast
qed

lemma year_word_iff:
  "year_word w \<longleftrightarrow>
     (\<exists>a b c d. w = [a, b, c, d] \<and>
        ((a = CHR ''1'' \<and> b = CHR ''9'') \<or> (a = CHR ''2'' \<and> b = CHR ''0'')) \<and>
        is_digit c \<and> is_digit d)"
  by (auto simp: year_word_def split: list.splits)

lemma year_word_words: "year_word w \<Longrightarrow> list_all is_word w"
proof -
  assume "year_word w"
  then obtain a b c d where w: "w = [a, b, c, d]"
    and ab: "(a = CHR ''1'' \<and> b = CHR ''9'') \<or> (a = CHR ''2'' \<and> b = CHR ''0'')"
    and cd: "is_digit c" "is_digit d"
    unfolding year_word_iff by blast
  from ab have "is_digit a" "is_digit b" by (auto simp: is_digit_def)
  with cd show ?thesis unfolding w by (simp add: digit_is_word)
qed

lemma year_body:
  "rmatch (Seq (Grp 1 (Alt (lits ''19'') (lits ''20''))) (Rep is_digit 2 (Some 2)))
     (prev, s, []) =
   (if 4 \<le> length s \<and> (take 2 s = ''19'' \<or> take 2 s = ''20'') \<and>
       is_digit (s ! 2) \<and> is_digit (s ! 3)
    then [(Some (s ! 3), drop 4 s, [(1, take 2 s)])] else [])"
proof -
  have g: "rmatch (Grp 1 (Alt (lits ''19'') (lits ''20''))) (prev, s, []) =
      (if 2 \<le> length s \<and> (take 2 s = ''19'' \<or> take 2 s = ''20'')
       then [(Some (s ! 1), drop 2 s, [(1, take 2 s)])] else [])"
    by (auto simp: rmatch_lits eval_nat_numeral simp del: lits.simps)
  have r: "rmatch (Rep is_digit 2 (Some 2)) (Some (s ! 1), drop 2 s, [(1, take 2 s)]) =
      (if 4 \<le> length s \<and> is_digit (s ! 2) \<and> is_digit (s ! 3)
       then [(Some (s ! 3), drop 4 s, [(1, take 2 s)])] else [])"
  proof (cases "4 \<le> length s")
    case True
    then have "2 \<le> length s - 2" by linarith
    then show ?thesis using True by (simp add: rmatch_two_digits del: rmatch.simps)
  next
    case False
    then have "\<not> 2 \<le> length s - 2" by linarith
    then show ?thesis using False by (simp add: rmatch_two_digits del: rmatch.simps)
  qed
  show ?thesis
    unfolding rmatch.simps(4) g
    by (simp only: r list.map concat.simps append_Nil2 if_distrib [of "map _"]
          if_distrib [of concat] split: if_splits) auto
qed

lemma year_wk:
  "case rmatch re_year (prev, s, []) of
     [] \<Rightarrow> \<not> hit year_word prev s
   | (p, s', g) # _ \<Rightarrow> hit year_word prev s \<and> s' = dropWhile is_word s"
proof -
  let ?G = "Grp 1 (Alt (lits ''19'') (lits ''20''))"
  let ?R = "Rep is_digit 2 (Some 2)"
  let ?B = "Seq ?G ?R"
  have "rmatch (Seq ?G (Seq ?R Bnd)) = rmatch (Seq ?B Bnd)"
    by (rule ext) (rule seq_assoc)
  then have eq: "rmatch re_year (prev, s, []) = rmatch (Seq Bnd (Seq ?B Bnd)) (prev, s, [])"
    by (simp only: re_year_def rmatch.simps(4))
  have sound: "\<exists>n. 0 < n \<and> n \<le> length s \<and> year_word (take n s) \<and>
            fst x = Some (s ! (n - 1)) \<and> fst (snd x) = drop n s"
    if "x \<in> set (rmatch ?B (prev, s, []))" for x
  proof -
    from that have c: "4 \<le> length s" "take 2 s = ''19'' \<or> take 2 s = ''20''"
      "is_digit (s ! 2)" "is_digit (s ! 3)"
      and x: "x = (Some (s ! 3), drop 4 s, [(1, take 2 s)])"
      unfolding year_body by (auto split: if_splits)
    from length_ge_4 [OF c(1)] obtain a b c' d t where s: "s = a # b # c' # d # t" by blast
    have "year_word (take 4 s)" using c unfolding s year_word_iff by (auto simp: eval_nat_numeral)
    then show ?thesis using c(1) x by (intro exI [of _ 4]) simp
  qed
  have complete: "\<exists>x\<in>set (rmatch ?B (prev, s, [])).
        fst x = Some (s ! (n - 1)) \<and> fst (snd x) = drop n s"
    if n: "0 < n" "n \<le> length s" and q: "year_word (take n s)" for n
  proof -
    from q obtain a b c d where t: "take n s = [a, b, c, d]"
      and ab: "(a = CHR ''1'' \<and> b = CHR ''9'') \<or> (a = CHR ''2'' \<and> b = CHR ''0'')"
      and cd: "is_digit c" "is_digit d"
      unfolding year_word_iff by blast
    from t have "length (take n s) = 4" by simp
    with n have n4: "n = 4" by simp
    then have l: "4 \<le> length s" using n by simp
    from length_ge_4 [OF l] obtain a' b' c' d' r where s: "s = a' # b' # c' # d' # r" by blast
    from t n4 s have e: "a' = a" "b' = b" "c' = c" "d' = d" by (simp_all add: eval_nat_numeral)
    have "rmatch ?B (prev, s, []) = [(Some (s ! 3), drop 4 s, [(1, take 2 s)])]"
      unfolding year_body using l ab cd unfolding s e by (auto simp: eval_nat_numeral)
    then show ?thesis using n4 by simp
  qed
  show ?thesis
    unfolding eq
    by (rule bounded_word_pattern [where Q = year_word, OF sound complete year_word_words])
qed

lemma tag_words_facts:
  "list_all (\<lambda>w. w \<noteq> [] \<and> list_all is_word w) tag_words"
  by code_simp

lemma tag_word_words: "tag_word u \<Longrightarrow> list_all is_word u"
proof -
  assume "tag_word u"
  then obtain w where w: "w \<in> set tag_words" and e: "map lower u = map lower w"
    by (auto simp: tag_word_def)
  from w tag_words_facts have "list_all is_word w" by (auto simp: list_all_iff)
  then have "list_all is_word (map lower w)" by (simp add: list_all_iff is_word_lower)
  then have "list_all is_word (map lower u)" by (simp only: e)
  then show ?thesis by (simp add: list_all_iff is_word_lower)
qed

lemma no_dot_takeWhile:
  "CHR ''.'' \<notin> set s \<Longrightarrow> takeWhile (\<lambda>c. lower c = lower (CHR ''.'')) s = []"
  by (cases s) (auto simp: lower_dot)

lemma h264_alt:
  assumes "CHR ''.'' \<notin> set s"
  shows "rmatch (Seq (lits_ci ''H'')
            (Seq (Rep (\<lambda>c. lower c = lower (CHR ''.'')) 0 (Some 1)) (lits_ci ''264'')))
           (prev, s, g) =
         rmatch (lits_ci ''H264'') (prev, s, g)"
proof (cases s)
  case Nil
  then show ?thesis by simp
next
  case (Cons c cs)
  then have "CHR ''.'' \<notin> set cs" using assms by simp
  then have t: "takeWhile (\<lambda>c. lower c = lower (CHR ''.'')) cs = []" by (rule no_dot_takeWhile)
  have r: "rmatch (Rep (\<lambda>c. lower c = lower (CHR ''.'')) 0 (Some 1)) (Some c, cs, g) =
      [(Some c, cs, g)]"
    by (simp add: t Let_def)
  have l: "rmatch (Seq (Rep (\<lambda>c. lower c = lower (CHR ''.'')) 0 (Some 1)) (lits_ci ''264''))
      (Some c, cs, g) = rmatch (lits_ci ''264'') (Some c, cs, g)"
    unfolding rmatch.simps(4) r by simp
  have a: "rmatch (lits_ci ''H'') (prev, c # cs, g) =
      (if lower c = lower (CHR ''H'') then [(Some c, cs, g)] else [])"
    by simp
  have lhs: "rmatch (Seq (lits_ci ''H'') (Seq (Rep (\<lambda>c. lower c = lower (CHR ''.'')) 0 (Some 1))
      (lits_ci ''264''))) (prev, c # cs, g) =
      (if lower c = lower (CHR ''H'') then rmatch (lits_ci ''264'') (Some c, cs, g) else [])"
  proof (cases "lower c = lower (CHR ''H'')")
    case True
    show ?thesis
      by (simp only: rmatch.simps(4) [of "lits_ci ''H''"] a True simp_thms if_True list.map
            concat.simps append_Nil2 l)
  next
    case False
    show ?thesis
      by (simp only: rmatch.simps(4) [of "lits_ci ''H''"] a False if_False list.map concat.simps)
  qed
  have "lits_ci ''H264'' = Seq (Cls (\<lambda>c. lower c = lower (CHR ''H''))) (lits_ci ''264'')"
    by (rule lits_ci.simps(2))
  then have rhs: "rmatch (lits_ci ''H264'') (prev, c # cs, g) =
      (if lower c = lower (CHR ''H'') then rmatch (lits_ci ''264'') (Some c, cs, g) else [])"
    by (simp only: rmatch_cls_seq list.case)
  show ?thesis unfolding Cons lhs rhs ..
qed

lemma tags_alts:
  assumes "CHR ''.'' \<notin> set s"
  shows "rmatch
       (Alt (lits_ci ''720p'')
       (Alt (lits_ci ''1080p'')
       (Alt (lits_ci ''2160p'')
       (Alt (lits_ci ''480p'')
       (Alt (lits_ci ''HDR'')
       (Alt (lits_ci ''BluRay'')
       (Alt (lits_ci ''WEBRip'')
       (Alt (lits_ci ''x264'')
            (Seq (lits_ci ''H'')
            (Seq (Rep (\<lambda>c. lower c = lower (CHR ''.'')) 0 (Some 1))
                 (lits_ci ''264''))))))))))) (prev, s, g) =
     concat (map (\<lambda>w. rmatch (lits_ci w) (prev, s, g)) tag_words)"
  by (simp only: rmatch.simps(5) h264_alt [OF assms] tag_words_def list.map concat.simps
        append_Nil2 append_assoc)

lemma lits_ci_mem:
  "w \<noteq> [] \<Longrightarrow>
   y \<in> set (rmatch (lits_ci w) (prev, s, g)) \<longleftrightarrow>
     ci_prefix w s \<and> y = (Some (s ! (length w - 1)), drop (length w) s, g)"
  by (simp only: rmatch_lits_ci) auto


lemma concat_lits_mem:
  assumes "\<And>w. w \<in> set ws \<Longrightarrow> w \<noteq> []"
  shows "y \<in> set (concat (map (\<lambda>w. rmatch (lits_ci w) (prev, s, g)) ws)) \<longleftrightarrow>
      (\<exists>w\<in>set ws. ci_prefix w s \<and> y = (Some (s ! (length w - 1)), drop (length w) s, g))"
proof -
  have "y \<in> set (concat (map (\<lambda>w. rmatch (lits_ci w) (prev, s, g)) ws)) \<longleftrightarrow>
        (\<exists>w\<in>set ws. y \<in> set (rmatch (lits_ci w) (prev, s, g)))"
    by (simp only: set_concat set_map) blast
  also have "\<dots> \<longleftrightarrow> (\<exists>w\<in>set ws. ci_prefix w s \<and>
        y = (Some (s ! (length w - 1)), drop (length w) s, g))"
  proof (rule bex_cong [OF refl])
    fix w assume "w \<in> set ws"
    then have "w \<noteq> []" by (rule assms)
    then show "y \<in> set (rmatch (lits_ci w) (prev, s, g)) \<longleftrightarrow>
       ci_prefix w s \<and> y = (Some (s ! (length w - 1)), drop (length w) s, g)"
      by (rule lits_ci_mem)
  qed
  finally show ?thesis .
qed

lemma grp_mem:
  "x \<in> set (rmatch (Grp n r) (prev, s, g)) \<longleftrightarrow>
      (\<exists>y\<in>set (rmatch r (prev, s, g)).
         x = (fst y, fst (snd y), (n, take (length s - length (fst (snd y))) s) # snd (snd y)))"
proof -
  have "rmatch (Grp n r) (prev, s, g) =
      map (\<lambda>y. (fst y, fst (snd y), (n, take (length s - length (fst (snd y))) s) # snd (snd y)))
        (rmatch r (prev, s, g))"
    unfolding rmatch.simps(7) by (rule map_cong [OF refl]) (simp split: prod.splits)
  then show ?thesis by (simp only: set_map image_iff)
qed

lemma tags_wk:
  assumes nd: "CHR ''.'' \<notin> set s"
  shows "case rmatch re_tags (prev, s, []) of
     [] \<Rightarrow> \<not> hit tag_word prev s
   | (p, s', g) # _ \<Rightarrow> hit tag_word prev s \<and> s' = dropWhile is_word s"
proof -
  define A where "A = Alt (lits_ci ''720p'')
       (Alt (lits_ci ''1080p'')
       (Alt (lits_ci ''2160p'')
       (Alt (lits_ci ''480p'')
       (Alt (lits_ci ''HDR'')
       (Alt (lits_ci ''BluRay'')
       (Alt (lits_ci ''WEBRip'')
       (Alt (lits_ci ''x264'')
            (Seq (lits_ci ''H'')
            (Seq (Rep (\<lambda>c. lower c = lower (CHR ''.'')) 0 (Some 1))
                 (lits_ci ''264''))))))))))"
  have ne: "w \<noteq> []" if "w \<in> set tag_words" for w
    using that tag_words_facts by (auto simp: list_all_iff)
  have alts: "y \<in> set (rmatch A (prev, s, [])) \<longleftrightarrow>
      (\<exists>w\<in>set tag_words. ci_prefix w s \<and>
         y = (Some (s ! (length w - 1)), drop (length w) s, []))" for y
    unfolding A_def tags_alts [OF nd] by (rule concat_lits_mem) (rule ne)
  have sound: "\<exists>n. 0 < n \<and> n \<le> length s \<and> tag_word (take n s) \<and>
            fst x = Some (s ! (n - 1)) \<and> fst (snd x) = drop n s"
    if "x \<in> set (rmatch (Grp 1 A) (prev, s, []))" for x
  proof -
    from that obtain y where y: "y \<in> set (rmatch A (prev, s, []))"
      and x: "x = (fst y, fst (snd y), (1, take (length s - length (fst (snd y))) s) # snd (snd y))"
      unfolding grp_mem by blast
    from y obtain w where w: "w \<in> set tag_words" and c: "ci_prefix w s"
      and yy: "y = (Some (s ! (length w - 1)), drop (length w) s, [])"
      unfolding alts by blast
    from c have "tag_word (take (length w) s)" using w by (auto simp: ci_prefix_def tag_word_def)
    moreover from c have "length w \<le> length s" by (simp add: ci_prefix_def)
    moreover from ne [OF w] have "0 < length w" by simp
    moreover have "fst x = Some (s ! (length w - 1))" "fst (snd x) = drop (length w) s"
      by (simp_all add: x yy)
    ultimately show ?thesis by blast
  qed
  have complete: "\<exists>x\<in>set (rmatch (Grp 1 A) (prev, s, [])).
        fst x = Some (s ! (n - 1)) \<and> fst (snd x) = drop n s"
    if n: "0 < n" "n \<le> length s" and q: "tag_word (take n s)" for n
  proof -
    from q obtain w where w: "w \<in> set tag_words" and e: "map lower (take n s) = map lower w"
      by (auto simp: tag_word_def)
    from e have "length (take n s) = length w" by (metis length_map)
    with n have l: "length w = n" by simp
    then have c: "ci_prefix w s" using e n by (simp add: ci_prefix_def)
    define y where "y = (Some (s ! (length w - 1)), drop (length w) s, [] :: groups)"
    have "y \<in> set (rmatch A (prev, s, []))" unfolding alts y_def using w c by blast
    then have "(fst y, fst (snd y),
        (1, take (length s - length (fst (snd y))) s) # snd (snd y)) \<in>
        set (rmatch (Grp 1 A) (prev, s, []))"
      unfolding grp_mem by blast
    moreover have "fst y = Some (s ! (n - 1))" "fst (snd y) = drop n s"
      by (simp_all add: y_def l)
    ultimately show ?thesis by force
  qed
  have rt: "re_tags = Seq Bnd (Seq (Grp 1 A) Bnd)"
    unfolding re_tags_def A_def by (rule refl)
  show ?thesis
    unfolding rt
    by (rule bounded_word_pattern [where Q = tag_word, OF sound complete tag_word_words])
qed

lemma word_at_None: "\<not> word_at None"
  by (simp add: word_at_def)

lemma sub_year_is_kill: "re_sub re_year [] s = kill year_word Outside s"
proof -
  have "re_sub_from re_year [] False None s =
      kill year_word (if word_at None then Keeping else Outside) s"
    by (rule sub_is_kill [where S = "\<lambda>_. True"]) (simp_all add: year_wk)
  then show ?thesis by (simp add: re_sub_def word_at_None)
qed

lemma sub_tags_is_kill:
  assumes "CHR ''.'' \<notin> set s"
  shows "re_sub re_tags [] s = kill tag_word Outside s"
proof -
  have "re_sub_from re_tags [] False None s =
      kill tag_word (if word_at None then Keeping else Outside) s"
  proof (rule sub_is_kill [where S = "\<lambda>s. CHR ''.'' \<notin> set s"])
    show "case rmatch re_tags (prev, t, []) of [] \<Rightarrow> \<not> hit tag_word prev t
       | (p, s', g) # _ \<Rightarrow> hit tag_word prev t \<and> s' = dropWhile is_word t"
      if "CHR ''.'' \<notin> set t" for prev t
      using that by (rule tags_wk)
    show "CHR ''.'' \<notin> set (drop n t)" if "CHR ''.'' \<notin> set t" for t n
      using that by (meson in_set_dropD)
    show "CHR ''.'' \<notin> set s" by (rule assms)
  qed
  then show ?thesis by (simp add: re_sub_def word_at_None)
qed

lemma sub_spaces_squeeze: "re_sub re_spaces '' '' s = squeeze False s"
  by (simp add: re_sub_def sub_spaces_is_squeeze)

lemma replace_char_absent: "a \<notin> set s \<Longrightarrow> replace_char a b s = s"
  by (induction s) (auto simp: replace_char_def)

lemma replace_char_removes: "a \<noteq> b \<Longrightarrow> a \<notin> set (replace_char a b s)"
  by (induction s) (simp_all add: replace_char_def)

lemma replace_char_keeps: "c \<notin> set s \<Longrightarrow> c \<noteq> b \<Longrightarrow> c \<notin> set (replace_char a b s)"
  by (induction s) (simp_all add: replace_char_def)

lemma splitext_no_dot: "CHR ''.'' \<notin> set s \<Longrightarrow> splitext s = (s, [])"
proof -
  assume "CHR ''.'' \<notin> set s"
  then have "rfind (CHR ''.'') s = - 1" by (simp add: rfind_def)
  moreover have "- 1 \<le> rfind (CHR ''/'') s"
  proof (cases "CHR ''/'' \<in> set s")
    case True
    have "length (takeWhile (\<lambda>x. x \<noteq> CHR ''/'') (rev s)) \<le> length s"
      by (metis length_rev length_takeWhile_le)
    then show ?thesis using True by (simp add: rfind_def)
  next
    case False
    then show ?thesis by (simp add: rfind_def)
  qed
  ultimately show ?thesis by (simp add: splitext_def Let_def)
qed

text \<open>What \<^verbatim>\<open>clean_filename\<close> computes, and the properties of every result.\<close>

lemma clean_filename_scan:
  "clean_filename f =
     strip (squeeze False (kill tag_word Outside (kill year_word Outside
       (replace_char (CHR ''_'') (CHR '' '')
          (replace_char (CHR ''.'') (CHR '' '') (fst (splitext f)))))))"
proof -
  let ?y = "replace_char (CHR ''_'') (CHR '' '')
          (replace_char (CHR ''.'') (CHR '' '') (fst (splitext f)))"
  have "CHR ''.'' \<notin> set ?y"
    by (rule replace_char_keeps) (simp_all add: replace_char_removes)
  then have "CHR ''.'' \<notin> set (kill year_word Outside ?y)"
    using set_kill by blast
  then show ?thesis
    by (simp add: clean_filename_def Let_def sub_year_is_kill sub_tags_is_kill sub_spaces_squeeze)
qed

lemma clean_filename_result:
  assumes "x = clean_filename f"
  shows "CHR ''.'' \<notin> set x" "CHR ''_'' \<notin> set x" "no_hit year_word False x"
    "no_hit tag_word False x" "single_spaced False x" "strip x = x"
proof -
  let ?y = "replace_char (CHR ''_'') (CHR '' '')
          (replace_char (CHR ''.'') (CHR '' '') (fst (splitext f)))"
  let ?a = "kill year_word Outside ?y"
  let ?b = "kill tag_word Outside ?a"
  let ?c = "squeeze False ?b"
  have x: "x = strip ?c" using assms by (simp only: clean_filename_scan)
  have dy: "CHR ''.'' \<notin> set ?y"
    by (rule replace_char_keeps) (simp_all add: replace_char_removes)
  have uy: "CHR ''_'' \<notin> set ?y"
    by (simp add: replace_char_removes)
  have sub: "set x \<subseteq> insert (CHR '' '') (set ?y)"
  proof -
    have "set x \<subseteq> set ?c" unfolding x by (rule set_strip)
    also have "\<dots> \<subseteq> insert (CHR '' '') (set ?b)" by (rule set_squeeze)
    also have "\<dots> \<subseteq> insert (CHR '' '') (set ?a)" using set_kill by blast
    also have "\<dots> \<subseteq> insert (CHR '' '') (set ?y)" using set_kill by blast
    finally show ?thesis .
  qed
  show "CHR ''.'' \<notin> set x" using sub dy by auto
  show "CHR ''_'' \<notin> set x" using sub uy by auto
  have "no_hit year_word False ?a" by (rule no_hit_kill_self)
  then have "no_hit year_word False ?b" by (rule no_hit_kill_other)
  then have "no_hit year_word False ?c" by (rule no_hit_squeeze) simp
  then show "no_hit year_word False x" unfolding x by (rule no_hit_strip)
  have "no_hit tag_word False ?b" by (rule no_hit_kill_self)
  then have "no_hit tag_word False ?c" by (rule no_hit_squeeze) simp
  then show "no_hit tag_word False x" unfolding x by (rule no_hit_strip)
  have "single_spaced False ?c" by (rule single_spaced_squeeze)
  then show "single_spaced False x" unfolding x by (rule single_spaced_strip)
  show "strip x = x" unfolding x by (rule strip_idem)
qed

subsection \<open>C1: the primary parse\<close>

text \<open>
  Claim C1 (as amended). When the stem is \<^verbatim>\<open>S\<close>, one or two digits, \<^verbatim>\<open>E\<close>, one or
  two digits, optional whitespace, a hyphen and a rest, \<^verbatim>\<open>parse_filename\<close> returns the
  two numbers and, as title, the rest cut at its first line break (after the leading
  whitespace) and trimmed; when the rest holds no line break this is the trimmed rest.
  When the stem has no such form, it returns season 1, episode 0 and the whole stem.
\<close>

theorem parse_filename_spec:
  "(episode_stem (fst (splitext filename)) d1 d2 rest \<longrightarrow>
      parse_filename filename =
        Inr (int (digits_val d1), int (digits_val d2),
             strip (takeWhile (\<lambda>c. c \<noteq> CHR 0x0A) (dropWhile is_space rest)))) \<and>
   (episode_stem (fst (splitext filename)) d1 d2 rest \<and> CHR 0x0A \<notin> set rest \<longrightarrow>
      parse_filename filename = Inr (int (digits_val d1), int (digits_val d2), strip rest)) \<and>
   ((\<forall>a b r. \<not> episode_stem (fst (splitext filename)) a b r) \<longrightarrow>
      parse_filename filename = Inr (1, 0, fst (splitext filename)))"
proof -
  let ?stem = "fst (splitext filename)"
  have match: "parse_filename filename =
      Inr (int (digits_val d1), int (digits_val d2),
           strip (takeWhile (\<lambda>c. c \<noteq> CHR 0x0A) (dropWhile is_space rest)))"
    if st: "episode_stem ?stem d1 d2 rest"
  proof -
    from st have d: "d1 \<noteq> []" "list_all is_digit d1" "d2 \<noteq> []" "list_all is_digit d2"
      "int (length d1) \<le> int_max_str_digits" "int (length d2) \<le> int_max_str_digits"
      unfolding episode_stem_def int_max_str_digits_def by auto
    have "re_match re_episode ?stem =
        Some [(3, takeWhile (\<lambda>c. c \<noteq> CHR 0x0A) (dropWhile is_space rest)), (2, d2), (1, d1)]"
      by (simp add: re_match_re_episode episode_fields_complete [OF st])
    then show ?thesis
      by (simp add: parse_filename_def group_def py_int_str_digits d)
  qed
  have nonl: "strip (takeWhile (\<lambda>c. c \<noteq> CHR 0x0A) (dropWhile is_space rest)) = strip rest"
    if "CHR 0x0A \<notin> set rest"
  proof -
    have "CHR 0x0A \<notin> set (dropWhile is_space rest)"
      using that by (auto dest: set_dropWhileD)
    then have tw: "takeWhile (\<lambda>c. c \<noteq> CHR 0x0A) (dropWhile is_space rest) =
        dropWhile is_space rest"
      by (auto simp: takeWhile_eq_all_conv)
    show ?thesis unfolding strip_def tw dropWhile_idem ..
  qed
  have nomatch: "parse_filename filename = Inr (1, 0, ?stem)"
    if no: "\<forall>a b r. \<not> episode_stem ?stem a b r"
  proof -
    have "episode_fields ?stem = None"
    proof (cases "episode_fields ?stem")
      case None
      then show ?thesis .
    next
      case (Some x)
      obtain a b t where "x = (a, b, t)" by (cases x)
      with Some have "\<exists>r. episode_stem ?stem a b r" by (simp add: episode_fields_sound)
      with no show ?thesis by blast
    qed
    then show ?thesis by (simp add: parse_filename_def re_match_re_episode)
  qed
  show ?thesis using match nonl nomatch by simp
qed

theorem parse_filename_spec_witness:
  "parse_filename ''S01E02 - Beta.mkv'' = Inr (1, 2, ''Beta'') \<and>
   parse_filename ''Movie.mkv'' = Inr (1, 0, ''Movie'')"
proof -
  have s1: "fst (splitext ''S01E02 - Beta.mkv'') = ''S01E02 - Beta''" by code_simp
  have s2: "fst (splitext ''Movie.mkv'') = ''Movie''" by code_simp
  have e1: "episode_stem ''S01E02 - Beta'' ''01'' ''02'' '' Beta''"
    unfolding episode_stem_def
    by (intro exI [of _ "CHR ''S''"] exI [of _ "CHR ''E''"] exI [of _ "'' ''"])
       (simp add: is_digit_def is_space_def)
  have e2: "\<forall>a b r. \<not> episode_stem ''Movie'' a b r"
    unfolding episode_stem_def by auto
  have v: "int (digits_val ''01'') = 1" "int (digits_val ''02'') = 2"
    "strip '' Beta'' = ''Beta''" "CHR 0x0A \<notin> set '' Beta''"
    by (simp_all add: digits_val_def strip_def is_space_def)
  note a = parse_filename_spec [of "''S01E02 - Beta.mkv''" "''01''" "''02''" "'' Beta''",
      unfolded s1]
  note b = parse_filename_spec [of "''Movie.mkv''" "[]" "[]" "[]", unfolded s2]
  from a e1 v(4) have "parse_filename ''S01E02 - Beta.mkv'' =
      Inr (int (digits_val ''01''), int (digits_val ''02''), strip '' Beta'')" by blast
  moreover from b e2 have "parse_filename ''Movie.mkv'' = Inr (1, 0, ''Movie'')" by blast
  ultimately show ?thesis by (simp only: v)
qed

text \<open>
  Claim C1 as stated fails on a stem with a line break in the title: \<^verbatim>\<open>.\<close> does not
  match a line break, so the title stops there.
\<close>

theorem parse_filename_newline_counterexample:
  "episode_stem (fst (splitext (''S01E02 - a'' @ [CHR 0x0A] @ ''b.mkv'')))
     ''01'' ''02'' ('' a'' @ [CHR 0x0A] @ ''b'') \<and>
   parse_filename (''S01E02 - a'' @ [CHR 0x0A] @ ''b.mkv'') = Inr (1, 2, ''a'') \<and>
   strip ('' a'' @ [CHR 0x0A] @ ''b'') = ''a'' @ [CHR 0x0A] @ ''b'' \<and>
   ''a'' \<noteq> ''a'' @ [CHR 0x0A] @ ''b''"
proof -
  have s: "fst (splitext (''S01E02 - a'' @ [CHR 0x0A] @ ''b.mkv'')) =
      ''S01E02 - a'' @ [CHR 0x0A] @ ''b''" by code_simp
  have e: "episode_stem (''S01E02 - a'' @ [CHR 0x0A] @ ''b'') ''01'' ''02''
      ('' a'' @ [CHR 0x0A] @ ''b'')"
    unfolding episode_stem_def
    by (intro exI [of _ "CHR ''S''"] exI [of _ "CHR ''E''"] exI [of _ "'' ''"])
       (simp add: is_digit_def is_space_def)
  have p: "parse_filename (''S01E02 - a'' @ [CHR 0x0A] @ ''b.mkv'') = Inr (1, 2, ''a'')"
    by code_simp
  have t: "strip ('' a'' @ [CHR 0x0A] @ ''b'') = ''a'' @ [CHR 0x0A] @ ''b''"
    by code_simp
  show ?thesis using s e p t by simp
qed

subsection \<open>C2: the order of the episodes in a group\<close>

text \<open>
  Claim C2 fails on the code. \<^verbatim>\<open>parse_series_folder\<close> sorts each group with the key
  \<^verbatim>\<open>parse_episode_number(e.name)\<close>, and \<^verbatim>\<open>e.name\<close> is the title that remains after the
  \<^verbatim>\<open>SxxExx -\<close> prefix was cut off, so every key is 0 and the stable sort keeps the scan
  order: scanned as Beta, Alpha, the group is Beta, Alpha. On the file names the key
  would be 2 and 1.
\<close>

theorem group_keeps_scan_order:
  "parse_series_folder beta_alpha_fs ''/show'' default_video_exts =
     Inr [(''Season 1'',
           [\<lparr>ep_name = ''Beta'', ep_path = ''/show/S01E02 - Beta.mkv'',
              ep_poster_path = ''video.png''\<rparr>,
            \<lparr>ep_name = ''Alpha'', ep_path = ''/show/S01E01 - Alpha.mkv'',
              ep_poster_path = ''video.png''\<rparr>])] \<and>
   parse_episode_number ''Beta'' = Inr 0 \<and> parse_episode_number ''Alpha'' = Inr 0 \<and>
   parse_episode_number ''S01E02 - Beta.mkv'' = Inr 2 \<and>
   parse_episode_number ''S01E01 - Alpha.mkv'' = Inr 1"
  by code_simp

subsection \<open>C3: writing a record and reading it back\<close>

lemma show_nat_length: "n < 10 ^ k \<Longrightarrow> 0 < k \<Longrightarrow> length (show_nat n) \<le> k"
proof (induction n arbitrary: k rule: show_nat.induct)
  case (1 n)
  show ?case
  proof (cases "n < 10")
    case True
    then show ?thesis using 1(3) by (subst show_nat.simps) simp
  next
    case False
    obtain j where kj: "k = Suc j" using 1(3) by (cases k) auto
    have "0 < j"
    proof (rule ccontr)
      assume "\<not> 0 < j"
      then have "n < 10" using 1(2) kj by simp
      with False show False by simp
    qed
    with kj have j: "k = Suc j" "0 < j" by simp_all
    have "n div 10 < 10 ^ j" using 1(2) j by (simp add: less_mult_imp_div_less mult.commute)
    then have "length (show_nat (n div 10)) \<le> j" using 1(1) [OF False] j by simp
    then show ?thesis using False j by (subst show_nat.simps) simp
  qed
qed

lemma foldl_digits_bound:
  "list_all is_digit s \<Longrightarrow>
   foldl (\<lambda>a c. 10 * a + (of_char c - 48)) (a::nat) s < (a + 1) * 10 ^ length s"
proof (induction s arbitrary: a)
  case Nil
  then show ?case by simp
next
  case (Cons c s)
  then have c: "is_digit c" and s: "list_all is_digit s" by simp_all
  from c have "(of_char c :: nat) - 48 \<le> 9" by (auto simp: is_digit_def)
  then have "10 * a + (of_char c - 48) + 1 \<le> (a + 1) * 10" by simp
  then have "(10 * a + (of_char c - 48) + 1) * 10 ^ length s \<le> (a + 1) * 10 * 10 ^ length s"
    by (rule mult_le_mono1)
  moreover have "foldl (\<lambda>a c. 10 * a + (of_char c - 48)) (10 * a + (of_char c - 48)) s
      < (10 * a + (of_char c - 48) + 1) * 10 ^ length s"
    by (rule Cons.IH [OF s])
  ultimately have "foldl (\<lambda>a c. 10 * a + (of_char c - 48)) (10 * a + (of_char c - 48)) s
      < (a + 1) * 10 * 10 ^ length s"
    by linarith
  moreover have "(a + 1) * 10 * 10 ^ length s = (a + 1) * 10 ^ length (c # s)"
    by (simp add: algebra_simps)
  ultimately show ?case by (simp only: foldl_Cons)
qed

lemma digits_val_bound: "list_all is_digit s \<Longrightarrow> digits_val s < 10 ^ length s"
  using foldl_digits_bound [of s 0] by (simp add: digits_val_def)

lemma genre_id_str_ok: "is_genre_id g \<Longrightarrow> int_str_ok (genre_id_val g)"
proof (cases g)
  case (JStr s)
  assume "is_genre_id g"
  then have s: "s \<noteq> []" "list_all is_digit s" "int (length s) \<le> int_max_str_digits"
    using JStr by (simp_all add: is_genre_id_def)
  have "length (show_nat (digits_val s)) \<le> length s"
    using digits_val_bound [OF s(2)] s(1) by (intro show_nat_length) simp_all
  then show ?thesis using s(3) JStr by (simp add: int_str_ok_def genre_id_val_def)
qed (simp_all add: is_genre_id_def genre_id_val_def)

lemma int_each_genre_ids:
  "list_all is_genre_id gs \<Longrightarrow> int_each gs = Inr (map genre_id_val gs)"
proof (induction gs)
  case Nil
  then show ?case by simp
next
  case (Cons g gs)
  then have g: "is_genre_id g" and gs: "int_each gs = Inr (map genre_id_val gs)" by simp_all
  from g have "py_int g = Inr (genre_id_val g)"
    by (cases g) (simp_all add: is_genre_id_def genre_id_val_def py_int_def py_int_str_digits)
  with gs show ?case by simp
qed

lemma last_join: "b \<noteq> [] \<Longrightarrow> last (join a b) = last b"
  by (simp add: join_def)

lemma basename_nonempty:
  assumes "p \<noteq> []" "last p \<noteq> CHR ''/''"
  shows "basename p \<noteq> []"
proof (cases "CHR ''/'' \<in> set p")
  case False
  then show ?thesis using assms(1) by (simp add: basename_def rfind_def)
next
  case True
  obtain c q where r: "rev p = c # q" using assms(1) by (cases "rev p") auto
  then have "c = last p" by (metis last_rev list.sel(1) hd_rev assms(1))
  then have "c \<noteq> CHR ''/''" using assms(2) by simp
  then have "0 < length (takeWhile (\<lambda>x. x \<noteq> CHR ''/'') (rev p))" by (simp add: r)
  moreover have "length (takeWhile (\<lambda>x. x \<noteq> CHR ''/'') (rev p)) \<le> length p"
    by (metis length_rev length_takeWhile_le)
  moreover define n where "n = length (takeWhile (\<lambda>x. x \<noteq> CHR ''/'') (rev p))"
  ultimately have "0 < n" "n \<le> length p" by simp_all
  then have "nat (int (length p) - 1 - int n + 1) < length p" by arith
  then have "nat (rfind (CHR ''/'') p + 1) < length p"
    using True by (simp add: rfind_def n_def)
  then show ?thesis by (simp add: basename_def)
qed

lemma basename_json: "basename (join METADATA_DIR (key @ ''.json'')) \<noteq> []"
proof (rule basename_nonempty)
  show "join METADATA_DIR (key @ ''.json'') \<noteq> []" by (simp add: join_def)
  show "last (join METADATA_DIR (key @ ''.json'')) \<noteq> CHR ''/''"
    by (simp add: last_join)
qed

lemma write_file_can_write:
  assumes "can_write fs p" "basename p \<noteq> []"
  shows "\<exists>fs'. write_file fs p c = Inr fs' \<and> stat fs' p = Some (File c)"
proof -
  from assms(1) have pe: "path_error p = None" by (simp add: can_write_def)
  from assms(1) consider "is_file fs p" | "fs p = None" "is_dir fs (parent p)"
    using pe by (auto simp: can_write_def exists_def stat_def)
  then show ?thesis
  proof cases
    case 1
    then show ?thesis using pe
      by (auto simp: is_file_def stat_def write_file_def split: option.splits node.splits)
  next
    case 2
    then show ?thesis using pe assms(2)
      by (auto simp: is_dir_def stat_def write_file_def split: option.splits node.splits if_splits)
  qed
qed




text \<open>
  The other hypotheses of the amended claim are needed as well. A key with a NUL
  character and a key that makes the file name longer than 255 bytes are refused by
  \<^verbatim>\<open>open\<close>; a genre id of 4301 digits passes \<^verbatim>\<open>int()\<close> but stops \<^verbatim>\<open>json.dump\<close>, which leaves
  the beginning of the document in the file.
\<close>

lemma show_nat_power: "length (show_nat (10 ^ n)) = Suc n"
proof (induction n)
  case 0
  show ?case by (subst show_nat.simps) simp
next
  case (Suc n)
  have "\<not> (10::nat) ^ Suc n < 10" by simp
  moreover have "(10::nat) ^ Suc n div 10 = 10 ^ n" by simp
  ultimately show ?case using Suc by (subst show_nat.simps) (simp del: power_Suc)
qed

lemma huge_id_too_long: "\<not> int_str_ok huge_id"
proof -
  have "nat \<bar>(10::int) ^ n\<bar> = 10 ^ n" for n :: nat
    by (simp add: nat_power_eq)
  then have "int (length (show_nat (nat \<bar>(10::int) ^ n\<bar>))) = int n + 1" for n :: nat
    by (simp only: show_nat_power of_nat_Suc)
  from this [of 4300] show ?thesis
    unfolding int_str_ok_def huge_id_def int_max_str_digits_def by linarith
qed

lemma save_metadata_nul_key:
  "save_metadata fresh_fs (JStr [CHR 0x00]) [] = (Some ValueError, fresh_fs)"
  by (simp add: save_metadata_def dict_get_def py_str_def py_iter_def Let_def write_file_def
        path_error_def join_def METADATA_DIR_def CACHE_DIR_def)

lemma save_metadata_long_key:
  "save_metadata fresh_fs (JStr (replicate 251 (CHR ''a''))) [] = (Some OSError, fresh_fs)"
proof -
  have "path_error (join METADATA_DIR (replicate 251 (CHR ''a'') @ ''.json'')) = Some OSError"
    by code_simp
  then show ?thesis
    by (simp add: save_metadata_def dict_get_def py_str_def py_iter_def Let_def write_file_def)
qed

lemma save_metadata_long_id:
  "save_metadata fresh_fs (JStr ''k'') [(''genres'', JArr [JInt huge_id])] =
     (Some ValueError,
      fresh_fs(''.cache/metadata'' \<mapsto> Dir [''k.json''],
               ''.cache/metadata/k.json'' \<mapsto> File Partial))"
proof -
  have p: "join METADATA_DIR ''k.json'' = ''.cache/metadata/k.json''" by code_simp
  have e: "path_error ''.cache/metadata/k.json'' = None" by code_simp
  have d: "parent ''.cache/metadata/k.json'' = ''.cache/metadata''"
    "basename ''.cache/metadata/k.json'' = ''k.json''" by code_simp+
  have e2: "path_error ''.cache/metadata'' = None" by code_simp
  have n: "fresh_fs ''.cache/metadata/k.json'' = None"
    "fresh_fs ''.cache/metadata'' = Some (Dir [])"
    by (simp_all add: fresh_fs_def)
  show ?thesis
    by (simp add: save_metadata_def dict_get_def py_str_def py_iter_def py_int_def Let_def
          write_file_def stat_def p e d e2 n huge_id_too_long)
qed

subsection \<open>C4: a metadata file that does not parse\<close>



text \<open>
  Claim C4 as stated, for every file that cannot be parsed, fails on a file of a hundred
  thousand opening brackets: \<^verbatim>\<open>json.load\<close> raises \<^verbatim>\<open>RecursionError\<close>, which is not a
  \<^verbatim>\<open>ValueError\<close> and so passes the \<^verbatim>\<open>except\<close> clause; the error reaches the caller and
  the file stays.
\<close>

theorem get_deep_nesting_counterexample:
  "is_file deep_cache_fs (join METADATA_DIR (''k'' @ ''.json'')) \<and>
   get_cached_metadata deep_cache_fs ''k'' = Inl RecursionError"
proof -
  have p: "join METADATA_DIR ''k.json'' = ''.cache/metadata/k.json''"
    by code_simp
  have e: "path_error ''.cache/metadata/k.json'' = None" by code_simp
  have f: "deep_cache_fs ''.cache/metadata/k.json'' = Some (File (Deep deep_bytes))"
    by (simp add: deep_cache_fs_def)
  show ?thesis
    by (simp add: get_cached_metadata_def Let_def p exists_def is_file_def stat_def e f
          read_file_def)
qed

subsection \<open>C5: the cache key of a series\<close>

text \<open>
  Claim C5 fails on the code. \<^verbatim>\<open>SeriesItem.__init__\<close> looks the cache up under the
  folder's name, but \<^verbatim>\<open>fetch_metadata\<close> first replaces \<^verbatim>\<open>self.title\<close> by the name the
  remote search returned and then saves under \<^verbatim>\<open>self.title\<close>. For the folder
  \<^verbatim>\<open>/media/breaking.bad\<close> and the show \<^verbatim>\<open>Breaking Bad\<close> the record is written to
  \<^verbatim>\<open>Breaking Bad.json\<close>; the next scan of the same folder looks for
  \<^verbatim>\<open>breaking.bad.json\<close>, finds nothing and starts from the defaults again.
\<close>

theorem series_cache_key_mismatch:
  "(case series_item_init fresh_fs ''/media/breaking.bad'' of
      Inl _ \<Rightarrow> False
    | Inr (item, fs0) \<Rightarrow>
        si_title item = JStr ''breaking.bad'' \<and>
        (case fetch_metadata breaking_bad_search (\<lambda>url. None) fs0 item of
           (item', fs1) \<Rightarrow>
             si_title item' = JStr ''Breaking Bad'' \<and>
             fs1 (join METADATA_DIR ''Breaking Bad.json'') =
               Some (File (Json (JObj [(''title'', JStr ''Breaking Bad''),
                                       (''overview'', JStr ''Chemistry''),
                                       (''genres'', JArr [JInt 18])]))) \<and>
             fs1 (join METADATA_DIR ''breaking.bad.json'') = None \<and>
             (case series_item_init fs1 ''/media/breaking.bad'' of
                Inl _ \<Rightarrow> False
              | Inr (item2, fs2) \<Rightarrow>
                  si_title item2 = JStr ''breaking.bad'' \<and>
                  si_overview item2 = JStr ''No description available.'' \<and>
                  si_genres item2 = JArr [])))"
  by code_simp

subsection \<open>C6: the recognised video extensions\<close>

text \<open>
  Claim C6 fails on the code. The scanning loop tests file names against the seven
  extensions of \<^verbatim>\<open>VIDEO_EXTS\<close>; \<^verbatim>\<open>list_videos_in_dirs\<close> and \<^verbatim>\<open>is_video_file\<close> carry a
  list of their own without \<^verbatim>\<open>.webm\<close>; \<^verbatim>\<open>parse_series_folder\<close> defaults to
  \<^verbatim>\<open>.mkv\<close>, \<^verbatim>\<open>.mp4\<close>, \<^verbatim>\<open>.avi\<close>. In a folder holding \<^verbatim>\<open>clip.webm\<close>, \<^verbatim>\<open>a.mov\<close> and
  \<^verbatim>\<open>b.mkv\<close> the scan finds three videos, the flat listing two, the grouper one.
\<close>

theorem video_extension_sets_differ:
  "refresh_list mixed_exts_fs [''/lib''] =
     Inr [VideoItem ''/lib/clip.webm'', VideoItem ''/lib/a.mov'', VideoItem ''/lib/b.mkv''] \<and>
   list_videos_in_dirs 2 mixed_exts_fs [''/lib''] True =
     Some (Inr [''/lib/a.mov'', ''/lib/b.mkv'']) \<and>
   list_videos_in_dirs 2 mixed_exts_fs [''/lib''] False =
     Some (Inr [''/lib/a.mov'', ''/lib/b.mkv'']) \<and>
   \<not> is_video_file ''clip.webm'' \<and>
   (case parse_series_folder mixed_exts_fs ''/lib'' default_video_exts of
      Inr seasons \<Rightarrow>
        map (\<lambda>(k, eps). (k, map ep_path eps)) seasons = [(''Season 1'', [''/lib/b.mkv''])]
    | Inl _ \<Rightarrow> False)"
  by code_simp

subsection \<open>C7: what the library scan yields\<close>

lemma endswith_lower_iff:
  "endswith (map lower name) suf \<longleftrightarrow> (\<exists>stem ext. name = stem @ ext \<and> map lower ext = suf)"
proof
  assume e: "endswith (map lower name) suf"
  let ?k = "length name - length suf"
  have "name = take ?k name @ drop ?k name" by simp
  moreover have "map lower (drop ?k name) = suf"
    using e by (simp add: endswith_def drop_map)
  ultimately show "\<exists>stem ext. name = stem @ ext \<and> map lower ext = suf" by blast
next
  assume "\<exists>stem ext. name = stem @ ext \<and> map lower ext = suf"
  then obtain stem ext where n: "name = stem @ ext" and s: "map lower ext = suf" by blast
  from s have "length suf = length ext" by auto
  then show "endswith (map lower name) suf"
    using n s by (simp add: endswith_def)
qed

lemma has_video_ext_code [code]:
  "has_video_ext name = endswith_any (map lower name) VIDEO_EXTS"
  unfolding endswith_any_def has_video_ext_def list_ex_iff endswith_lower_iff by blast

lemma stat_Some: "stat fs p = Some n \<Longrightarrow> path_error p = None \<and> fs p = Some n"
  by (simp add: stat_def split: if_splits)

lemma is_dir_scandir: "is_dir fs p \<Longrightarrow> scandir fs p = Inr (children fs p)"
  by (auto simp: is_dir_def scandir_def children_def stat_def
        split: option.splits node.splits if_splits)

lemma not_exists_children: "\<not> exists fs p \<Longrightarrow> children fs p = []"
  by (simp add: exists_def children_def)

lemma file_not_dir: "is_file fs p \<Longrightarrow> \<not> is_dir fs p"
  by (auto simp: is_file_def is_dir_def split: option.splits node.splits)

lemma cache_usable_get:
  assumes "cache_usable fs key"
  shows "\<exists>v. get_cached_metadata fs key = Inr (v, fs) \<and> (truthy v \<longrightarrow> (\<exists>d. v = JObj d))"
proof (cases "stat fs (join METADATA_DIR (key @ ''.json''))")
  case None
  then show ?thesis by (simp add: get_cached_metadata_def exists_def Let_def truthy_def)
next
  case (Some n)
  with assms obtain v where n: "n = File (Json v)"
    and v: "case v of JObj _ \<Rightarrow> True | _ \<Rightarrow> \<not> truthy v"
    by (auto simp: cache_usable_def split: node.splits content.splits)
  from stat_Some [OF Some] n have "read_file fs (join METADATA_DIR (key @ ''.json'')) = Inr (Json v)"
    by (simp add: read_file_def)
  then have "get_cached_metadata fs key = Inr (v, fs)"
    using Some by (simp add: get_cached_metadata_def exists_def Let_def)
  moreover from v have "truthy v \<longrightarrow> (\<exists>d. v = JObj d)" by (cases v) simp_all
  ultimately show ?thesis by blast
qed

lemma video_item_init_usable:
  assumes "cache_usable fs (fst (splitext (basename path)))"
  shows "\<exists>vi. video_item_init fs path = Inr (vi, fs)"
proof -
  from cache_usable_get [OF assms] obtain v where
    g: "get_cached_metadata fs (fst (splitext (basename path))) = Inr (v, fs)"
    and t: "truthy v \<longrightarrow> (\<exists>d. v = JObj d)" by blast
  show ?thesis
  proof (cases "truthy v")
    case True
    with t obtain d where "v = JObj d" by blast
    then show ?thesis using g True by (simp add: video_item_init_def Let_def)
  next
    case False
    then show ?thesis using g by (simp add: video_item_init_def Let_def)
  qed
qed

lemma series_item_init_usable:
  assumes "cache_usable fs (basename path)"
  shows "\<exists>si. series_item_init fs path = Inr (si, fs)"
proof -
  from cache_usable_get [OF assms] obtain v where
    g: "get_cached_metadata fs (basename path) = Inr (v, fs)"
    and t: "truthy v \<longrightarrow> (\<exists>d. v = JObj d)" by blast
  show ?thesis
  proof (cases "truthy v")
    case True
    with t obtain d where "v = JObj d" by blast
    then show ?thesis using g True by (simp add: series_item_init_def Let_def)
  next
    case False
    then show ?thesis using g by (simp add: series_item_init_def Let_def)
  qed
qed

lemma scan_entry_usable:
  assumes "case entry_item fs folder name of
             None \<Rightarrow> True | Some item \<Rightarrow> cache_usable fs (cache_key item)"
  shows "scan_entry fs folder name =
           Inr (case entry_item fs folder name of None \<Rightarrow> [] | Some item \<Rightarrow> [item], fs)"
proof -
  let ?p = "join folder name"
  consider (video) "plain_video fs folder name"
    | (series) "\<not> plain_video fs folder name" "series_folder fs folder name"
    | (neither) "\<not> plain_video fs folder name" "\<not> series_folder fs folder name"
    by blast
  then show ?thesis
  proof cases
    case video
    then have e: "entry_item fs folder name = Some (VideoItem ?p)"
      by (simp add: entry_item_def)
    with assms have "cache_usable fs (fst (splitext (basename ?p)))"
      by (simp add: cache_key_def)
    from video_item_init_usable [OF this] obtain vi where
      "video_item_init fs ?p = Inr (vi, fs)" by blast
    then show ?thesis
      using video e by (simp add: scan_entry_def Let_def plain_video_def has_video_ext_code)
  next
    case series
    then have e: "entry_item fs folder name = Some (SeriesItem ?p)"
      by (simp add: entry_item_def)
    with assms have "cache_usable fs (basename ?p)"
      by (simp add: cache_key_def)
    from series_item_init_usable [OF this] obtain si where
      i: "series_item_init fs ?p = Inr (si, fs)" by blast
    from series have d: "is_dir fs ?p"
      and h: "\<exists>f\<in>set (children fs ?p). is_file fs (join ?p f) \<and> has_video_ext f"
      by (simp_all add: series_folder_def plain_video_def)
    from series(1) have nv: "\<not> (is_file fs ?p \<and> has_video_ext name)"
      by (simp add: plain_video_def)
    show ?thesis
      using nv d h i e
      by (auto simp: scan_entry_def Let_def is_dir_scandir has_video_ext_code [symmetric]
            list_ex_iff)
  next
    case neither
    then have e: "entry_item fs folder name = None"
      by (simp add: entry_item_def)
    from neither(1) have nv: "\<not> (is_file fs ?p \<and> has_video_ext name)"
      by (simp add: plain_video_def)
    show ?thesis
    proof (cases "is_dir fs ?p")
      case True
      with neither(2) have
        "\<not> (\<exists>f\<in>set (children fs ?p). is_file fs (join ?p f) \<and> has_video_ext f)"
        by (simp add: series_folder_def plain_video_def)
      then show ?thesis
        using nv True e
        by (auto simp: scan_entry_def Let_def is_dir_scandir has_video_ext_code [symmetric]
              list_ex_iff)
    next
      case False
      then show ?thesis using nv e
        by (auto simp: scan_entry_def Let_def has_video_ext_code [symmetric])
    qed
  qed
qed

lemma scan_entries_usable:
  assumes "\<forall>name\<in>set names. case entry_item fs folder name of
             None \<Rightarrow> True | Some item \<Rightarrow> cache_usable fs (cache_key item)"
  shows "scan_entries fs folder names = Inr (List.map_filter (entry_item fs folder) names, fs)"
  using assms
proof (induction names)
  case Nil
  then show ?case by (simp add: List.map_filter_simps)
next
  case (Cons name names)
  then have 1: "scan_entry fs folder name =
      Inr (case entry_item fs folder name of None \<Rightarrow> [] | Some item \<Rightarrow> [item], fs)"
    by (intro scan_entry_usable) simp
  from Cons have 2: "scan_entries fs folder names =
      Inr (List.map_filter (entry_item fs folder) names, fs)" by simp
  show ?case by (simp add: 1 2 List.map_filter_simps split: option.splits)
qed

lemma scan_folders_usable:
  assumes "\<forall>folder\<in>set folders. exists fs folder \<longrightarrow> is_dir fs folder"
    and "\<forall>folder\<in>set folders. entries_usable fs folder"
  shows "scan_folders fs folders = Inr (concat (map (listed fs) folders), fs)"
  using assms
proof (induction folders)
  case Nil
  then show ?case by simp
next
  case (Cons folder folders)
  then have ih: "scan_folders fs folders = Inr (concat (map (listed fs) folders), fs)"
    by simp
  show ?case
  proof (cases "exists fs folder")
    case False
    then have "listed fs folder = []"
      by (simp add: listed_def not_exists_children List.map_filter_simps)
    then show ?thesis using False ih by simp
  next
    case True
    with Cons.prems(1) have d: "is_dir fs folder" by simp
    from Cons.prems(2) have "entries_usable fs folder" by simp
    then have "scan_entries fs folder (children fs folder) = Inr (listed fs folder, fs)"
      unfolding listed_def entries_usable_def by (rule scan_entries_usable)
    then show ?thesis using True ih by (simp add: is_dir_scandir [OF d])
  qed
qed

text \<open>Two disjoint selections with one hit each.\<close>

lemma filter_two_hits:
  assumes "filter P xs = [v]" "filter Q xs = [d]" "\<And>x. P x \<Longrightarrow> \<not> Q x"
  shows "filter (\<lambda>x. P x \<or> Q x) xs = [v, d] \<or> filter (\<lambda>x. P x \<or> Q x) xs = [d, v]"
  using assms(1,2)
proof (induction xs)
  case Nil
  then show ?case by simp
next
  case (Cons x xs)
  consider "P x" | "Q x" "\<not> P x" | "\<not> P x" "\<not> Q x" by blast
  then show ?case
  proof cases
    case 1
    then have q: "\<not> Q x" by (rule assms(3))
    from 1 Cons.prems(1) have xv: "x = v" and np: "filter P xs = []" by simp_all
    from q Cons.prems(2) have qd: "filter Q xs = [d]" by simp
    have "filter (\<lambda>x. P x \<or> Q x) xs = filter Q xs"
      using np by (intro filter_cong refl) (auto simp: filter_empty_conv)
    then show ?thesis using 1 xv qd by simp
  next
    case 2
    from 2 Cons.prems(2) have xd: "x = d" and nq: "filter Q xs = []" by simp_all
    from 2 Cons.prems(1) have pv: "filter P xs = [v]" by simp
    have "filter (\<lambda>x. P x \<or> Q x) xs = filter P xs"
      using nq by (intro filter_cong refl) (auto simp: filter_empty_conv)
    then show ?thesis using 2 xd pv by simp
  next
    case 3
    then show ?thesis using Cons by simp
  qed
qed

lemma map_filter_as_filter:
  "List.map_filter f xs = map (\<lambda>x. the (f x)) (filter (\<lambda>x. f x \<noteq> None) xs)"
  by (simp add: List.map_filter_def)

lemma listed_one_each:
  assumes v: "filter (plain_video fs folder) (children fs folder) = [v]"
    and d: "filter (series_folder fs folder) (children fs folder) = [d]"
  shows "listed fs folder = [VideoItem (join folder v), SeriesItem (join folder d)] \<or>
         listed fs folder = [SeriesItem (join folder d), VideoItem (join folder v)]"
proof -
  have dis: "\<not> series_folder fs folder x" if "plain_video fs folder x" for x
    using that by (simp add: plain_video_def series_folder_def file_not_dir)
  have e: "(entry_item fs folder x \<noteq> None) = (plain_video fs folder x \<or> series_folder fs folder x)"
    for x by (simp add: entry_item_def)
  have pv: "plain_video fs folder v" using v by (metis filter_eq_ConsD)
  have sd: "series_folder fs folder d" using d by (metis filter_eq_ConsD)
  have iv: "the (entry_item fs folder v) = VideoItem (join folder v)"
    using pv by (simp add: entry_item_def)
  have isd: "the (entry_item fs folder d) = SeriesItem (join folder d)"
    using sd dis by (auto simp: entry_item_def)
  from filter_two_hits [OF v d dis]
  show ?thesis
    unfolding listed_def map_filter_as_filter e using iv isd by auto
qed



text \<open>
  Claim C7 as stated, for every configured folder that exists, fails when the cache
  holds a metadata file that parses to something that is neither an object nor false:
  the loop runs the constructor of the item, the constructor calls \<^verbatim>\<open>metadata.get\<close> on
  the list \<^verbatim>\<open>[1]\<close>, and the \<^verbatim>\<open>AttributeError\<close> ends the scan with no list at all.
\<close>

theorem scan_unusable_cache_counterexample:
  "is_dir list_cache_fs ''/media'' \<and>
   filter (plain_video list_cache_fs ''/media'') (children list_cache_fs ''/media'') = [''Movie.mkv''] \<and>
   filter (series_folder list_cache_fs ''/media'') (children list_cache_fs ''/media'') = [''Show''] \<and>
   refresh_list list_cache_fs [''/media''] = Inl AttributeError"
  by code_simp

subsection \<open>C8: cleaning a title twice\<close>

text \<open>
  C8. \<^verbatim>\<open>clean_filename\<close> is idempotent: for every input filename, applying it to its own
  result gives the same string as applying it once. After one pass the string has no
  dot and no underscore, no word that is a year or a quality tag, single blanks only
  and no blank at either end, so each step of the second pass leaves it unchanged.
\<close>

theorem clean_filename_idempotent:
  "clean_filename (clean_filename f) = clean_filename f"
proof -
  define x where "x = clean_filename f"
  note r = clean_filename_result [OF x_def]
  have "fst (splitext x) = x" using r(1) by (simp add: splitext_no_dot)
  moreover have "replace_char (CHR ''.'') (CHR '' '') x = x"
    using r(1) by (rule replace_char_absent)
  moreover have "replace_char (CHR ''_'') (CHR '' '') x = x"
    using r(2) by (rule replace_char_absent)
  moreover have "kill year_word Outside x = x"
    using no_hit_fixpoint [OF r(3)] by simp
  moreover have "kill tag_word Outside x = x"
    using no_hit_fixpoint [OF r(4)] by simp
  moreover have "squeeze False x = x"
    using r(5) by (rule squeeze_fixpoint)
  ultimately have "clean_filename x = x"
    by (simp only: clean_filename_scan r(6))
  then show ?thesis by (simp only: x_def)
qed

theorem clean_filename_idempotent_witness:
  "clean_filename ''The.Matrix_1999.1080p.BluRay.x264.mkv'' = ''The Matrix'' \<and>
   clean_filename (clean_filename ''The.Matrix_1999.1080p.BluRay.x264.mkv'') = ''The Matrix''"
proof -
  have e: "clean_filename ''The.Matrix_1999.1080p.BluRay.x264.mkv'' = ''The Matrix''"
    by code_simp
  show ?thesis
    using clean_filename_idempotent [of "''The.Matrix_1999.1080p.BluRay.x264.mkv''"]
    by (simp only: e simp_thms)
qed

subsection \<open>C9: grouping a folder that does not exist\<close>

text \<open>
  Claim C9. For a path that does not exist, \<^verbatim>\<open>parse_series_folder\<close> returns the empty
  mapping and raises nothing.
\<close>

theorem group_missing_folder:
  "\<not> exists fs folder_path \<Longrightarrow> parse_series_folder fs folder_path video_exts = Inr []"
  by (simp add: parse_series_folder_def)

theorem group_missing_folder_witness:
  "\<not> exists fresh_fs ''/nowhere'' \<and>
   parse_series_folder fresh_fs ''/nowhere'' default_video_exts = Inr []"
proof -
  have h: "\<not> exists fresh_fs ''/nowhere''" by (simp add: exists_def stat_def fresh_fs_def)
  from h group_missing_folder [OF h] show ?thesis by simp
qed

subsection \<open>C10: the keys of the grouping\<close>

lemma seasons_append_ok:
  assumes "groups_ok folder_path names seasons" and "group_ok folder_path names k e"
  shows "groups_ok folder_path names (seasons_append seasons k e)"
proof (cases "map_of seasons k")
  case None
  then have "k \<notin> fst ` set seasons" by (simp add: map_of_eq_None_iff)
  then show ?thesis using assms None
    by (simp add: groups_ok_def seasons_append_def)
next
  case (Some v)
  let ?f = "\<lambda>(k', eps). if k' = k then (k', eps @ [e]) else (k', eps)"
  have m: "map fst (map ?f seasons) = map fst seasons"
    by (induction seasons) (auto split: prod.splits)
  have inv: "eps \<noteq> [] \<and> (\<forall>x\<in>set eps. group_ok folder_path names k' x)"
    if "(k', eps) \<in> set seasons" for k' eps
    using assms(1) that by (auto simp: groups_ok_def list_all_iff)
  have la: "list_all (\<lambda>(k, eps). eps \<noteq> [] \<and> list_all (group_ok folder_path names k) eps)
          (map ?f seasons)"
    using assms(2) inv by (fastforce simp: list_all_iff split: if_splits)
  have d: "distinct (map fst (map ?f seasons))"
    unfolding m using assms(1) by (simp add: groups_ok_def)
  have sa: "seasons_append seasons k e = map ?f seasons"
    using Some by (simp add: seasons_append_def)
  show ?thesis unfolding sa groups_ok_def using d la by (rule conjI)
qed

lemma series_entry_ok:
  assumes inv: "groups_ok folder_path names seasons"
    and nm: "name \<in> set names"
    and st: "series_entry fs folder_path video_exts seasons name = Inr seasons'"
  shows "groups_ok folder_path names seasons'"
proof (cases "is_file fs (join folder_path name) \<and> endswith_any (map lower name) video_exts")
  case False
  then have "seasons' = seasons" using st by (auto simp: series_entry_def)
  then show ?thesis using inv by simp
next
  case True
  have eq: "series_entry fs folder_path video_exts seasons name =
      (case parse_filename name of
         Inl e \<Rightarrow> Inl e
       | Inr (season_num, episode_num, title) \<Rightarrow>
           Inr (seasons_append seasons (''Season '' @ show_int season_num)
                  (Episode fs title (join folder_path name) None)))"
    by (simp only: series_entry_def parse_filename_def Let_def True simp_thms if_True)
  from st eq obtain s ep t where p: "parse_filename name = Inr (s, ep, t)"
    and r: "seasons' = seasons_append seasons (''Season '' @ show_int s)
                         (Episode fs t (join folder_path name) None)"
    by (cases "parse_filename name") (auto split: prod.splits)
  have "group_ok folder_path names (''Season '' @ show_int s)
          (Episode fs t (join folder_path name) None)"
    unfolding group_ok_def using nm p by (auto simp: Episode_def)
  then show ?thesis unfolding r using inv by (rule seasons_append_ok [rotated])
qed

lemma series_entries_ok:
  assumes "groups_ok folder_path names seasons" "set todo \<subseteq> set names"
    "series_entries fs folder_path video_exts seasons todo = Inr seasons'"
  shows "groups_ok folder_path names seasons'"
  using assms
proof (induction todo arbitrary: seasons)
  case Nil
  then show ?case by simp
next
  case (Cons name todo)
  from Cons.prems(3) obtain mid where
    m: "series_entry fs folder_path video_exts seasons name = Inr mid"
    and r: "series_entries fs folder_path video_exts mid todo = Inr seasons'"
    by (cases "series_entry fs folder_path video_exts seasons name") auto
  have "groups_ok folder_path names mid"
    using Cons.prems(1) _ m by (rule series_entry_ok) (use Cons.prems(2) in auto)
  then show ?case using Cons.IH r Cons.prems(2) by auto
qed

lemma those_keys_length: "those_keys xs = Inr ks \<Longrightarrow> length ks = length xs"
proof (induction xs arbitrary: ks)
  case Nil
  then show ?case by simp
next
  case (Cons x xs)
  then show ?case by (auto split: sum.splits)
qed

lemma sort_episodes_set:
  assumes "sort_episodes eps = Inr eps'"
  shows "set eps' = set eps"
proof -
  from assms obtain ks where
    k: "those_keys (map (\<lambda>e. parse_episode_number (ep_name e)) eps) = Inr ks"
    and r: "eps' = map snd (sort_key fst (zip ks eps))"
    by (auto simp: sort_episodes_def split: sum.splits)
  from k have "length ks = length eps" by (auto dest: those_keys_length)
  then have "map snd (zip ks eps) = eps" by simp
  then have "snd ` set (zip ks eps) = set eps" by (metis set_map)
  then show ?thesis by (simp add: r)
qed

lemma sort_seasons_ok:
  assumes "sort_seasons seasons = Inr res"
    and "list_all (\<lambda>(k, eps). eps \<noteq> [] \<and> list_all (group_ok folder_path names k) eps) seasons"
  shows "map fst res = map fst seasons \<and>
         list_all (\<lambda>(k, eps). eps \<noteq> [] \<and> list_all (group_ok folder_path names k) eps) res"
  using assms
proof (induction seasons arbitrary: res)
  case Nil
  then show ?case by simp
next
  case (Cons g seasons)
  obtain k eps where g: "g = (k, eps)" by (cases g)
  from Cons.prems(1) g obtain eps' rest' where
    e: "sort_episodes eps = Inr eps'" and r: "sort_seasons seasons = Inr rest'"
    and s: "res = (k, eps') # rest'"
    by (auto split: sum.splits)
  from sort_episodes_set [OF e] have se: "set eps' = set eps" .
  then have "eps' \<noteq> []" using Cons.prems(2) g by auto
  moreover have "list_all (group_ok folder_path names k) eps'"
    using Cons.prems(2) g se by (simp add: list_all_iff)
  moreover have "map fst rest' = map fst seasons \<and>
         list_all (\<lambda>(k, eps). eps \<noteq> [] \<and> list_all (group_ok folder_path names k) eps) rest'"
    using Cons.IH [OF r] Cons.prems(2) by simp
  ultimately show ?case using s g by simp
qed

lemma parse_series_folder_ok:
  assumes "parse_series_folder fs folder_path video_exts = Inr seasons"
  shows "\<exists>names. groups_ok folder_path names seasons \<and>
           (seasons \<noteq> [] \<longrightarrow> scandir fs folder_path = Inr names)"
proof (cases "exists fs folder_path")
  case False
  then have "seasons = []" using assms by (simp add: parse_series_folder_def)
  then show ?thesis by (simp add: groups_ok_def)
next
  case True
  with assms obtain names mid where n: "scandir fs folder_path = Inr names"
    and m: "series_entries fs folder_path video_exts [] names = Inr mid"
    and s: "sort_seasons mid = Inr seasons"
    by (auto simp: parse_series_folder_def split: sum.splits)
  have "groups_ok folder_path names []" by (simp add: groups_ok_def)
  then have "groups_ok folder_path names mid"
    using _ m by (rule series_entries_ok) simp
  then have "groups_ok folder_path names seasons"
    using sort_seasons_ok [OF s, of folder_path names] by (simp add: groups_ok_def)
  then show ?thesis using n by blast
qed

text \<open>
  Claim C10. In every mapping that \<^verbatim>\<open>parse_series_folder\<close> returns the keys are
  distinct, every group is non-empty, and every episode of the group under a key is a
  scanned entry of the folder whose primary parse gives a season number \<open>N\<close> with the
  key equal to \<^verbatim>\<open>Season N\<close>.
\<close>

theorem group_keys_are_seasons:
  assumes "parse_series_folder fs folder_path video_exts = Inr seasons"
  shows "distinct (map fst seasons) \<and>
     (\<forall>k eps. (k, eps) \<in> set seasons \<longrightarrow>
        eps \<noteq> [] \<and>
        (\<forall>e\<in>set eps. \<exists>names name season episode title.
           scandir fs folder_path = Inr names \<and> name \<in> set names \<and>
           ep_path e = join folder_path name \<and>
           parse_filename name = Inr (season, episode, title) \<and>
           k = ''Season '' @ show_int season))"
proof -
  from parse_series_folder_ok [OF assms] obtain names where
    ok: "groups_ok folder_path names seasons"
    and sc: "seasons \<noteq> [] \<longrightarrow> scandir fs folder_path = Inr names"
    by blast
  from ok have d: "distinct (map fst seasons)" by (simp add: groups_ok_def)
  have g: "eps \<noteq> [] \<and>
        (\<forall>e\<in>set eps. \<exists>names name season episode title.
           scandir fs folder_path = Inr names \<and> name \<in> set names \<and>
           ep_path e = join folder_path name \<and>
           parse_filename name = Inr (season, episode, title) \<and>
           k = ''Season '' @ show_int season)"
    if m: "(k, eps) \<in> set seasons" for k eps
  proof -
    from m have ne: "seasons \<noteq> []" by auto
    with sc have s: "scandir fs folder_path = Inr names" by simp
    from ok m have e: "eps \<noteq> []" and a: "\<forall>e\<in>set eps. group_ok folder_path names k e"
      by (auto simp: groups_ok_def list_all_iff)
    have "\<exists>names name season episode title.
           scandir fs folder_path = Inr names \<and> name \<in> set names \<and>
           ep_path x = join folder_path name \<and>
           parse_filename name = Inr (season, episode, title) \<and>
           k = ''Season '' @ show_int season" if "x \<in> set eps" for x
    proof -
      from a that have "group_ok folder_path names k x" by blast
      then obtain name season episode title where
        "name \<in> set names" "ep_path x = join folder_path name"
        "parse_filename name = Inr (season, episode, title)"
        "k = ''Season '' @ show_int season"
        unfolding group_ok_def by blast
      with s show ?thesis by blast
    qed
    with e show ?thesis by blast
  qed
  from d g show ?thesis by blast
qed

theorem group_keys_are_seasons_witness:
  "parse_series_folder beta_alpha_fs ''/show'' default_video_exts =
     Inr [(''Season 1'',
           [\<lparr>ep_name = ''Beta'', ep_path = ''/show/S01E02 - Beta.mkv'',
              ep_poster_path = ''video.png''\<rparr>,
            \<lparr>ep_name = ''Alpha'', ep_path = ''/show/S01E01 - Alpha.mkv'',
              ep_poster_path = ''video.png''\<rparr>])] \<and>
   (\<exists>names name season episode title.
      scandir beta_alpha_fs ''/show'' = Inr names \<and> name \<in> set names \<and>
      ''/show/S01E02 - Beta.mkv'' = join ''/show'' name \<and>
      parse_filename name = Inr (season, episode, title) \<and>
      ''Season 1'' = ''Season '' @ show_int season)"
proof -
  let ?beta = "\<lparr>ep_name = ''Beta'', ep_path = ''/show/S01E02 - Beta.mkv'',
                ep_poster_path = ''video.png''\<rparr>"
  let ?alpha = "\<lparr>ep_name = ''Alpha'', ep_path = ''/show/S01E01 - Alpha.mkv'',
                 ep_poster_path = ''video.png''\<rparr>"
  have h: "parse_series_folder beta_alpha_fs ''/show'' default_video_exts =
      Inr [(''Season 1'', [?beta, ?alpha])]"
    by code_simp
  from group_keys_are_seasons [OF h]
  have "\<forall>e\<in>set [?beta, ?alpha]. \<exists>names name season episode title.
      scandir beta_alpha_fs ''/show'' = Inr names \<and> name \<in> set names \<and>
      ep_path e = join ''/show'' name \<and>
      parse_filename name = Inr (season, episode, title) \<and>
      ''Season 1'' = ''Season '' @ show_int season"
    by simp
  then have "\<exists>names name season episode title.
      scandir beta_alpha_fs ''/show'' = Inr names \<and> name \<in> set names \<and>
      ep_path ?beta = join ''/show'' name \<and>
      parse_filename name = Inr (season, episode, title) \<and>
      ''Season 1'' = ''Season '' @ show_int season"
    by simp
  then show ?thesis using h by simp
qed

end
